theory Spec2Isabelle
  imports Main "HOL-Library.Word"
begin

section \<open>Data model of the block retrieval queue\<close>

text \<open>
  \<open>BlockPointer\<close>, \<open>KeyMetadata\<close>, \<open>context.Context\<close> and \<open>Block\<close> are opaque to the
  queue: it only compares block pointers, passes key metadata through, hands contexts to the
  coalescing context and calls \<open>Set\<close> on blocks. They are natural numbers here. A
  \<open>*blockRetrieval\<close> is an address into the store \<open>mem\<close>; a \<open>Block\<close> is the address
  of a block object in the store \<open>blocks\<close>; a \<open>chan error\<close> is the name of a buffer in
  \<open>chans\<close>.
\<close>

type_synonym BlockPointer = nat
type_synonym KeyMetadata = nat
type_synonym Context = nat
type_synonym Block = nat
type_synonym addr = nat
type_synonym errchan = nat
type_synonym workchan = nat

text \<open>Go's \<open>error\<close>: \<open>nil\<close> is \<open>None\<close>; \<open>io.EOF\<close> is the shutdown error.\<close>

datatype err = EOF | Canceled | FetchError nat

record blockRetrievalRequest =
  block :: Block
  doneCh :: errchan

text \<open>
  Modelled from the spec: the type \<open>CoalescingContext\<close> is declared outside the two source
  files. The spec describes it as a cancellation aggregator built from a first context,
  where adding a context fails with "already fully canceled" once the aggregate is done, and
  \<open>cancel\<close> ends it. \<open>children\<close> are the contexts added so far, \<open>closed\<close> says
  that the aggregate is done.
\<close>

record CoalescingContext =
  children :: "Context list"
  closed :: bool

definition NewCoalescingContext :: "Context \<Rightarrow> CoalescingContext" where
  "NewCoalescingContext c = \<lparr>children = [c], closed = False\<rparr>"

definition AddContext :: "CoalescingContext \<Rightarrow> Context \<Rightarrow> err option \<times> CoalescingContext" where
  "AddContext cc c =
     (if closed cc then (Some Canceled, cc)
      else (None, cc\<lparr>children := children cc @ [c]\<rparr>))"

definition cancelFunc :: "CoalescingContext \<Rightarrow> CoalescingContext" where
  "cancelFunc cc = cc\<lparr>closed := True\<rparr>"

text \<open>
  The struct \<open>blockRetrieval\<close>. \<open>priority\<close> and \<open>index\<close> are Go \<open>int\<close>s that are only
  compared and assigned, never computed with, so they are unbounded integers here;
  \<open>insertionOrder\<close> is a \<open>uint64\<close> copy of a counter that is incremented, so it is a
  64-bit word.
\<close>

record blockRetrieval =
  blockPtr :: BlockPointer
  kmd :: KeyMetadata
  ctx :: CoalescingContext
  requests :: "blockRetrievalRequest list"
  index :: int
  priority :: int
  insertionOrder :: "64 word"

type_synonym store = "addr \<Rightarrow> blockRetrieval"

section \<open>The heap of retrievals\<close>

text \<open>
  Modelled from the spec: the type \<open>blockRetrievalHeap\<close> (a slice of \<open>*blockRetrieval\<close>
  with the methods \<open>Len\<close>, \<open>Less\<close>, \<open>Swap\<close>, \<open>Push\<close>, \<open>Pop\<close> that Go's
  \<open>container/heap\<close> asks for) is declared outside the two source files. The spec gives
  its order, "priority descending (ties broken by insertion order ascending)", and says that
  it maintains "each element's current index" with "a sentinel value when not present in the
  heap"; the sentinel is the \<open>-1\<close> that \<open>Request\<close> writes and tests.
  The heap is the pair of the slice and the store its pointers point into.
\<close>

type_synonym hp = "addr list \<times> store"

definition Len :: "hp \<Rightarrow> nat" where
  "Len hm = length (fst hm)"

definition Less :: "hp \<Rightarrow> nat \<Rightarrow> nat \<Rightarrow> bool" where
  "Less hm i j =
     (let reqI = snd hm (fst hm ! i); reqJ = snd hm (fst hm ! j)
      in if priority reqI > priority reqJ then True
         else if priority reqI < priority reqJ then False
         else insertionOrder reqI < insertionOrder reqJ)"

definition Swap :: "hp \<Rightarrow> nat \<Rightarrow> nat \<Rightarrow> hp" where
  "Swap hm i j =
     (let h = fst hm; m = snd hm;
          h' = h[i := h ! j, j := h ! i];
          m1 = m(h' ! i := (m (h' ! i))\<lparr>index := int i\<rparr>);
          m2 = m1(h' ! j := (m1 (h' ! j))\<lparr>index := int j\<rparr>)
      in (h', m2))"

definition Push_brh :: "hp \<Rightarrow> addr \<Rightarrow> hp" where
  "Push_brh hm x =
     (let h = fst hm; m = snd hm
      in (h @ [x], m(x := (m x)\<lparr>index := int (length h)\<rparr>)))"

definition Pop_brh :: "hp \<Rightarrow> addr \<times> hp" where
  "Pop_brh hm =
     (let h = fst hm; m = snd hm; x = last h
      in (x, (butlast h, m(x := (m x)\<lparr>index := - 1\<rparr>))))"

subsection \<open>Go's container/heap\<close>

text \<open>
  The functions \<open>up\<close>, \<open>down\<close>, \<open>Push\<close>, \<open>Pop\<close> and \<open>Fix\<close> of the standard
  package \<open>container/heap\<close>, over the interface above. Positions are natural numbers:
  in \<open>up\<close> the parent of \<open>j\<close> is \<open>(j - 1) / 2\<close>, which Go's truncating division
  makes \<open>0\<close> for \<open>j = 0\<close>, as the truncating subtraction on \<open>nat\<close> does; the test
  \<open>j1 < 0\<close> of \<open>down\<close> guards against an overflow that lengths of slices never reach.
\<close>

function heap_up :: "hp \<Rightarrow> nat \<Rightarrow> hp" where
  "heap_up hm j =
     (let i = (j - 1) div 2
      in if i = j \<or> \<not> Less hm j i then hm
         else heap_up (Swap hm i j) i)"
  by pat_completeness auto
termination
  by (relation "measure (\<lambda>(hm, j). j)") auto

declare heap_up.simps [simp del]

function heap_down_loop :: "hp \<Rightarrow> nat \<Rightarrow> nat \<Rightarrow> hp \<times> nat" where
  "heap_down_loop hm i n =
     (let j1 = 2 * i + 1
      in if j1 \<ge> n then (hm, i)
         else let j = (if j1 + 1 < n \<and> Less hm (j1 + 1) j1 then j1 + 1 else j1)
              in if \<not> Less hm j i then (hm, i)
                 else heap_down_loop (Swap hm i j) j n)"
  by pat_completeness auto
termination
  by (relation "measure (\<lambda>(hm, i, n). n - i)") (auto simp: Let_def)

declare heap_down_loop.simps [simp del]

text \<open>\<open>down\<close> returns whether the element moved: \<open>i > i0\<close>.\<close>

definition heap_down :: "hp \<Rightarrow> nat \<Rightarrow> nat \<Rightarrow> hp \<times> bool" where
  "heap_down hm i0 n = (let r = heap_down_loop hm i0 n in (fst r, snd r > i0))"

definition heap_Push :: "hp \<Rightarrow> addr \<Rightarrow> hp" where
  "heap_Push hm x = (let hm1 = Push_brh hm x in heap_up hm1 (Len hm1 - 1))"

text \<open>
  \<open>heap.Pop\<close> on an empty heap panics (index out of range in \<open>Swap\<close>):
  \<open>None\<close>. \<open>heap.Fix\<close> panics when the position is outside the slice (in the
  \<open>Less\<close> of \<open>up\<close>): \<open>None\<close>.
\<close>

definition heap_Pop :: "hp \<Rightarrow> (addr \<times> hp) option" where
  "heap_Pop hm =
     (if Len hm = 0 then None
      else let n = Len hm - 1;
               hm1 = Swap hm 0 n;
               hm2 = fst (heap_down hm1 0 n)
           in Some (Pop_brh hm2))"

definition heap_Fix :: "hp \<Rightarrow> int \<Rightarrow> hp option" where
  "heap_Fix hm i =
     (if i < 0 \<or> i \<ge> int (Len hm) then None
      else let r = heap_down hm (nat i) (Len hm)
           in if \<not> snd r then Some (heap_up (fst r) (nat i)) else Some (fst r))"

section \<open>The queue\<close>

text \<open>
  The struct \<open>blockRetrievalQueue\<close> (\<open>ptrs\<close>, \<open>insertionCount\<close>, \<open>heap\<close>,
  \<open>workerQueue\<close>, \<open>doneCh\<close>) together with the memory its pointers and channels
  refer to.
  \<^item> \<open>doneCh_closed\<close>: whether the channel \<open>brq.doneCh\<close> has been closed (nothing is
    ever sent on it).
  \<^item> \<open>workerQueue\<close>: the buffer of the channel of worker channels, oldest first, of
    capacity \<open>numWorkers\<close>.
  \<^item> \<open>mem\<close>: the retrievals; \<open>nalloc\<close> is the next unused address.
  \<^item> \<open>chans\<close>: the buffers of the \<open>chan error\<close>s made by \<open>Request\<close>, each of
    capacity 1; \<open>nchans\<close> is the next unused name.
  \<^item> \<open>wchans\<close>: the buffers of the \<open>chan *blockRetrieval\<close>s made by
    \<open>WorkOnRequest\<close>, each of capacity 1 (\<open>None\<close> is the nil pointer).
  \<^item> \<open>blocks\<close>: the contents of the block objects.
  \<^item> \<open>notifying\<close>: the goroutines started by \<open>notifyWorker\<close> that have not yet
    passed their \<open>select\<close>; \<open>draining\<close>: those that took the case of the closed
    \<open>doneCh\<close> and have not yet called \<open>popIfNotEmpty\<close>; \<open>matching\<close>: the
    worker channels taken from \<open>workerQueue\<close> by those that took the other case and
    have not yet called \<open>popIfNotEmpty\<close>.
\<close>

record state =
  ptrs :: "BlockPointer \<rightharpoonup> addr"
  insertionCount :: "64 word"
  heap :: "addr list"
  workerQueue :: "workchan list"
  numWorkers :: nat
  doneCh_closed :: bool
  mem :: store
  nalloc :: nat
  chans :: "errchan \<Rightarrow> err option list"
  nchans :: nat
  wchans :: "workchan \<Rightarrow> addr option list"
  nwchans :: nat
  blocks :: "Block \<Rightarrow> nat"
  notifying :: nat
  draining :: nat
  matching :: "workchan list"

text \<open>
  A call either panics, or blocks for ever on a channel operation that nothing in the call
  itself can enable, or returns.
\<close>

datatype 'a outcome = Panic | Blocks | Return 'a

datatype event =
    SetBlock Block Block
  | SendErr errchan "err option"
  | SendWork workchan "addr option"
  | CloseDoneCh

definition newBlockRetrievalQueue :: "nat \<Rightarrow> state" where
  "newBlockRetrievalQueue n =
     \<lparr>ptrs = Map.empty, insertionCount = 0, heap = [], workerQueue = [], numWorkers = n,
      doneCh_closed = False,
      mem = (\<lambda>_. \<lparr>blockPtr = 0, kmd = 0, ctx = \<lparr>children = [], closed = False\<rparr>,
                   requests = [], index = - 1, priority = 0, insertionOrder = 0\<rparr>),
      nalloc = 0, chans = (\<lambda>_. []), nchans = 0, wchans = (\<lambda>_. []), nwchans = 0,
      blocks = (\<lambda>_. 0), notifying = 0, draining = 0, matching = []\<rparr>"

definition popIfNotEmpty :: "state \<Rightarrow> (addr option \<times> state) outcome" where
  "popIfNotEmpty s =
     (if Len (heap s, mem s) > 0
      then (case heap_Pop (heap s, mem s) of
              None \<Rightarrow> Panic
            | Some r \<Rightarrow> Return (Some (fst r), s\<lparr>heap := fst (snd r), mem := snd (snd r)\<rparr>))
      else Return (None, s))"

text \<open>\<open>notifyWorker\<close> starts a goroutine, which waits at its \<open>select\<close>.\<close>

definition notifyWorker :: "state \<Rightarrow> state" where
  "notifyWorker s = s\<lparr>notifying := Suc (notifying s)\<rparr>"

text \<open>
  The tail of the loop body of \<open>Request\<close>, from \<open>ch := make(chan error, 1)\<close> to
  \<open>return ch\<close>, for the retrieval \<open>br\<close> at address \<open>a\<close>. The first component of the
  result counts the iterations of the loop.
\<close>

definition Request_attach ::
  "nat \<Rightarrow> state \<Rightarrow> addr \<Rightarrow> int \<Rightarrow> Block \<Rightarrow> (nat \<times> errchan \<times> state) outcome" where
  "Request_attach n s a prio blk =
     (let ch = nchans s;
          s1 = s\<lparr>chans := (chans s)(ch := []), nchans := Suc ch\<rparr>;
          s2 = s1\<lparr>mem := (mem s1)(a := (mem s1 a)
                  \<lparr>requests := requests (mem s1 a) @ [\<lparr>block = blk, doneCh = ch\<rparr>]\<rparr>)\<rparr>
      in if index (mem s2 a) \<noteq> - 1 \<and> prio > priority (mem s2 a)
         then (let s3 = s2\<lparr>mem := (mem s2)(a := (mem s2 a)\<lparr>priority := prio\<rparr>)\<rparr>
               in case heap_Fix (heap s3, mem s3) (index (mem s3 a)) of
                    None \<Rightarrow> Panic
                  | Some hm \<Rightarrow> Return (n, ch, s3\<lparr>heap := fst hm, mem := snd hm\<rparr>))
         else Return (n, ch, s2))"

text \<open>
  The branch \<open>!exists\<close>: a new retrieval is allocated, registered and pushed, and
  \<open>notifyWorker\<close> is deferred, so it runs when the function returns.
\<close>

definition Request_create ::
  "nat \<Rightarrow> state \<Rightarrow> Context \<Rightarrow> int \<Rightarrow> KeyMetadata \<Rightarrow> BlockPointer \<Rightarrow> Block
     \<Rightarrow> (nat \<times> errchan \<times> state) outcome" where
  "Request_create n s c prio k ptr blk =
     (let a = nalloc s;
          br = \<lparr>blockPtr = ptr, kmd = k, ctx = NewCoalescingContext c, requests = [],
                index = - 1, priority = prio, insertionOrder = insertionCount s\<rparr>;
          s1 = s\<lparr>mem := (mem s)(a := br), nalloc := Suc a\<rparr>;
          s2 = s1\<lparr>insertionCount := insertionCount s1 + 1\<rparr>;
          s3 = s2\<lparr>ptrs := (ptrs s2)(ptr \<mapsto> a)\<rparr>;
          hm = heap_Push (heap s3, mem s3) a;
          s4 = s3\<lparr>heap := fst hm, mem := snd hm\<rparr>
      in case Request_attach n s4 a prio blk of
           Return r \<Rightarrow>
             Return (fst r, fst (snd r), notifyWorker (snd (snd r)))
         | Panic \<Rightarrow> Panic
         | Blocks \<Rightarrow> Blocks)"

text \<open>
  The loop \<open>for { ... }\<close> of \<open>Request\<close>, run with the lock held. \<open>n\<close> is the number
  of iterations begun before this one. The loop has no bound of its own, so it is a partial
  function: \<open>None\<close> is the loop that never ends.
\<close>

partial_function (option) Request_loop ::
  "nat \<Rightarrow> state \<Rightarrow> Context \<Rightarrow> int \<Rightarrow> KeyMetadata \<Rightarrow> BlockPointer \<Rightarrow> Block
     \<Rightarrow> (nat \<times> errchan \<times> state) outcome option" where
  "Request_loop n s c prio k ptr blk =
     (case ptrs s ptr of
        None \<Rightarrow> Some (Request_create (Suc n) s c prio k ptr blk)
      | Some a \<Rightarrow>
          (let r = AddContext (ctx (mem s a)) c;
               s1 = s\<lparr>mem := (mem s)(a := (mem s a)\<lparr>ctx := snd r\<rparr>)\<rparr>
           in if fst r = Some Canceled
              then Request_loop (Suc n) (s1\<lparr>ptrs := (ptrs s1)(blockPtr (mem s1 a) := None)\<rparr>)
                     c prio k ptr blk
              else Some (Request_attach (Suc n) s1 a prio blk)))"

declare Request_loop.simps [code]

text \<open>
  \<open>Request\<close>: the \<open>select\<close> on \<open>doneCh\<close>, then the loop. The lock is taken after the
  \<open>select\<close>, so a \<open>Shutdown\<close> can come between the two: \<open>Request_locked\<close> is the
  part that runs with the lock held.
\<close>

definition Request_locked ::
  "state \<Rightarrow> Context \<Rightarrow> int \<Rightarrow> KeyMetadata \<Rightarrow> BlockPointer \<Rightarrow> Block
     \<Rightarrow> (nat \<times> errchan \<times> state) outcome option" where
  "Request_locked s c prio k ptr blk = Request_loop 0 s c prio k ptr blk"

definition Request ::
  "state \<Rightarrow> Context \<Rightarrow> int \<Rightarrow> KeyMetadata \<Rightarrow> BlockPointer \<Rightarrow> Block
     \<Rightarrow> (nat \<times> errchan \<times> state) outcome option" where
  "Request s c prio k ptr blk =
     (if doneCh_closed s
      then (let ch = nchans s
            in Some (Return (0, ch, s\<lparr>chans := (chans s)(ch := [Some EOF]), nchans := Suc ch\<rparr>)))
      else Request_locked s c prio k ptr blk)"

definition WorkOnRequest :: "state \<Rightarrow> (workchan \<times> state) outcome" where
  "WorkOnRequest s =
     (let ch = nwchans s;
          s1 = s\<lparr>wchans := (wchans s)(ch := []), nwchans := Suc ch\<rparr>
      in if length (workerQueue s1) \<ge> numWorkers s1 then Blocks
         else Return (ch, s1\<lparr>workerQueue := workerQueue s1 @ [ch]\<rparr>))"

text \<open>
  The loop of \<open>FinalizeRequest\<close> over \<open>retrieval.requests\<close>. \<open>req.block.Set(block)\<close>
  copies the contents of \<open>block\<close> into the request's block; the send on \<open>req.doneCh\<close>
  blocks when the buffer of capacity 1 is full.
\<close>

fun notify_requests ::
  "state \<Rightarrow> blockRetrievalRequest list \<Rightarrow> Block option \<Rightarrow> err option
     \<Rightarrow> (event list \<times> state) outcome" where
  "notify_requests s [] blk e = Return ([], s)"
| "notify_requests s (req # rs) blk e =
     (let s1 = (case blk of None \<Rightarrow> s
                | Some b \<Rightarrow> s\<lparr>blocks := (blocks s)(block req := blocks s b)\<rparr>);
          ev = (case blk of None \<Rightarrow> [] | Some b \<Rightarrow> [SetBlock (block req) b])
      in if length (chans s1 (doneCh req)) \<ge> 1 then Blocks
         else (case notify_requests
                      (s1\<lparr>chans := (chans s1)(doneCh req := chans s1 (doneCh req) @ [e])\<rparr>)
                      rs blk e of
                 Return r \<Rightarrow> Return (ev @ [SendErr (doneCh req) e] @ fst r, snd r)
               | Panic \<Rightarrow> Panic
               | Blocks \<Rightarrow> Blocks))"

definition FinalizeRequest ::
  "state \<Rightarrow> addr \<Rightarrow> Block option \<Rightarrow> err option \<Rightarrow> (event list \<times> state) outcome" where
  "FinalizeRequest s retrieval blk e =
     (let s1 = s\<lparr>ptrs := (ptrs s)(blockPtr (mem s retrieval) := None)\<rparr>;
          s2 = s1\<lparr>mem := (mem s1)(retrieval :=
                  (mem s1 retrieval)\<lparr>ctx := cancelFunc (ctx (mem s1 retrieval))\<rparr>)\<rparr>
      in notify_requests s2 (requests (mem s2 retrieval)) blk e)"

text \<open>
  \<open>notifyWorker_run\<close> is what the goroutine of \<open>notifyWorker\<close> does, from its
  \<open>select\<close> to its end, when the \<open>select\<close> takes the given case. A case that is
  not ready cannot be taken: \<open>Blocks\<close>.
\<close>

datatype select_case = DoneCase | WorkerCase

definition notifyWorker_run :: "state \<Rightarrow> select_case \<Rightarrow> (event list \<times> state) outcome" where
  "notifyWorker_run s0 sc =
     (let s = s0\<lparr>notifying := notifying s0 - 1\<rparr>
      in case sc of
           DoneCase \<Rightarrow>
             (if \<not> doneCh_closed s then Blocks
              else (case popIfNotEmpty s of
                      Return r \<Rightarrow>
                        (case fst r of
                           None \<Rightarrow> Return ([], snd r)
                         | Some retrieval \<Rightarrow> FinalizeRequest (snd r) retrieval None (Some EOF))
                    | Panic \<Rightarrow> Panic
                    | Blocks \<Rightarrow> Blocks))
         | WorkerCase \<Rightarrow>
             (case workerQueue s of
                [] \<Rightarrow> Blocks
              | ch # q \<Rightarrow>
                  (case popIfNotEmpty (s\<lparr>workerQueue := q\<rparr>) of
                     Return r \<Rightarrow>
                       (if length (wchans (snd r) ch) \<ge> 1 then Blocks
                        else Return ([SendWork ch (fst r)],
                               (snd r)\<lparr>wchans := (wchans (snd r))(ch := wchans (snd r) ch @ [fst r])\<rparr>))
                   | Panic \<Rightarrow> Panic
                   | Blocks \<Rightarrow> Blocks)))"

text \<open>Closing a closed channel panics in Go.\<close>

definition close_doneCh :: "state \<Rightarrow> (event list \<times> state) outcome" where
  "close_doneCh s =
     (if doneCh_closed s then Panic else Return ([CloseDoneCh], s\<lparr>doneCh_closed := True\<rparr>))"

definition Shutdown :: "state \<Rightarrow> (event list \<times> state) outcome" where
  "Shutdown s = (if doneCh_closed s then Return ([], s) else close_doneCh s)"

section \<open>The quota usage cache\<close>

text \<open>
  \<open>time.Time\<close> is a count of nanoseconds and \<open>time.Duration\<close> an \<open>int64\<close> count of
  nanoseconds; \<open>Time.Sub\<close> saturates at the ends of \<open>int64\<close>. Go's \<open>/\<close> on integers
  truncates towards zero. \<open>usageBytes\<close> and \<open>limitBytes\<close> are \<open>int64\<close>, 64-bit words read
  in two's complement (they are only stored and returned, never compared).
\<close>

type_synonym int64 = "64 word"

record cachedQuotaUsage =
  timestamp :: int
  usageBytes :: int64
  limitBytes :: int64

definition time_Sub :: "int \<Rightarrow> int \<Rightarrow> int" where
  "time_Sub t u = max (- (2 ^ 63)) (min (2 ^ 63 - 1) (t - u))"

definition go_quot :: "int \<Rightarrow> int \<Rightarrow> int" where
  "go_quot a b = (if (a < 0) = (b < 0) then \<bar>a\<bar> div \<bar>b\<bar> else - (\<bar>a\<bar> div \<bar>b\<bar>))"

text \<open>
  The result of the call \<open>BlockServer().GetUserQuotaInfo\<close>: an error, or a
  \<open>UserQuotaInfo\<close> with its \<open>Limit\<close> and its \<open>Total\<close>, a pointer (nil is
  \<open>None\<close>) to a usage record whose \<open>Bytes\<close> map reads 0 at a missing key.
  \<open>UsageWrite\<close> is the first of the usage types of package \<open>kbfsblock\<close>.
\<close>

type_synonym UsageType = nat

definition UsageWrite :: UsageType where
  "UsageWrite = 0"

record UserQuotaInfo =
  Total :: "(UsageType \<rightharpoonup> int64) option"
  Limit :: int64

definition Bytes_at :: "(UsageType \<rightharpoonup> int64) \<Rightarrow> UsageType \<Rightarrow> int64" where
  "Bytes_at m k = (case m k of None \<Rightarrow> 0 | Some v \<Rightarrow> v)"

text \<open>
  The struct \<open>EventuallyConsistentQuotaUsage\<close>, without its configuration and logger:
  the flag \<open>backgroundInProcess\<close>, the cached value, and the number of background
  goroutines that \<open>Get\<close> has started and that have not run yet.
\<close>

record EventuallyConsistentQuotaUsage =
  backgroundInProcess :: "32 word"
  cached :: cachedQuotaUsage
  background :: nat

text \<open>
  \<open>getAndCache\<close>, given the result of the remote call and the clock's time after it.
\<close>

definition getAndCache ::
  "EventuallyConsistentQuotaUsage \<Rightarrow> err + UserQuotaInfo \<Rightarrow> int
     \<Rightarrow> (cachedQuotaUsage \<times> err option) \<times> EventuallyConsistentQuotaUsage" where
  "getAndCache q rpc now =
     (case rpc of
        Inl e \<Rightarrow> ((\<lparr>timestamp = 0, usageBytes = 0, limitBytes = 0\<rparr>, Some e), q)
      | Inr quotaInfo \<Rightarrow>
          (let usage = \<lparr>timestamp = now,
                        usageBytes = (case Total quotaInfo of
                                        Some t \<Rightarrow> Bytes_at t UsageWrite
                                      | None \<Rightarrow> 0),
                        limitBytes = Limit quotaInfo\<rparr>
           in ((usage, None), q\<lparr>cached := usage\<rparr>)))"

text \<open>
  \<open>Get\<close>, given the clock's time at its start, and the result of the remote call and the
  clock's time after it should the call block on \<open>getAndCache\<close>.
\<close>

definition Get ::
  "EventuallyConsistentQuotaUsage \<Rightarrow> int \<Rightarrow> int \<Rightarrow> err + UserQuotaInfo \<Rightarrow> int
     \<Rightarrow> (int64 \<times> int64 \<times> err option) \<times> EventuallyConsistentQuotaUsage" where
  "Get q tolerance now0 rpc now1 =
     (let c = cached q;
          past = time_Sub now0 (timestamp c)
      in if past > tolerance
         then (let r = getAndCache q rpc now1
               in case snd (fst r) of
                    Some e \<Rightarrow> ((- 1, - 1, Some e), snd r)
                  | None \<Rightarrow> ((usageBytes (fst (fst r)), limitBytes (fst (fst r)), None), snd r))
         else if past > go_quot tolerance 2
         then (if backgroundInProcess q = 0
               then ((usageBytes c, limitBytes c, None),
                     q\<lparr>backgroundInProcess := 1, background := Suc (background q)\<rparr>)
               else ((usageBytes c, limitBytes c, None), q))
         else ((usageBytes c, limitBytes c, None), q))"

text \<open>The goroutine that \<open>Get\<close> starts in the background.\<close>

definition background_run ::
  "EventuallyConsistentQuotaUsage \<Rightarrow> err + UserQuotaInfo \<Rightarrow> int \<Rightarrow> EventuallyConsistentQuotaUsage" where
  "background_run q rpc now =
     (let r = getAndCache (q\<lparr>background := background q - 1\<rparr>) rpc now
      in (snd r)\<lparr>backgroundInProcess := 0\<rparr>)"

text \<open>\<open>Shutdown\<close> called \<open>n\<close> times in a row, with everything the calls did.\<close>

fun Shutdown_times :: "nat \<Rightarrow> state \<Rightarrow> (event list \<times> state) outcome" where
  "Shutdown_times 0 s = Return ([], s)"
| "Shutdown_times (Suc n) s =
     (case Shutdown s of
        Return r \<Rightarrow>
          (case Shutdown_times n (snd r) of
             Return r' \<Rightarrow> Return (fst r @ fst r', snd r')
           | Panic \<Rightarrow> Panic
           | Blocks \<Rightarrow> Blocks)
      | Panic \<Rightarrow> Panic
      | Blocks \<Rightarrow> Blocks)"

section \<open>What a finalization does, in one piece\<close>

text \<open>
  The sequence of effects of the loop of \<open>FinalizeRequest\<close> when no send blocks: for each
  request in turn, the \<open>Set\<close> when there is a block, then the send.
\<close>

definition notify_trace ::
  "blockRetrievalRequest list \<Rightarrow> Block option \<Rightarrow> err option \<Rightarrow> event list" where
  "notify_trace rs blk e =
     concat (map (\<lambda>req. (case blk of None \<Rightarrow> [] | Some b \<Rightarrow> [SetBlock (block req) b])
                          @ [SendErr (doneCh req) e]) rs)"

text \<open>The sends on completion channels among some effects, in order.\<close>

fun sends_of :: "event list \<Rightarrow> (errchan \<times> err option) list" where
  "sends_of [] = []"
| "sends_of (SendErr ch e # evs) = (ch, e) # sends_of evs"
| "sends_of (_ # evs) = sends_of evs"

text \<open>
  The state in which every request of the list has been notified: its channel holds the
  one value sent, and its block holds the contents of the block that was fetched.
\<close>

definition notified ::
  "state \<Rightarrow> blockRetrievalRequest list \<Rightarrow> Block option \<Rightarrow> err option \<Rightarrow> state" where
  "notified s rs blk e =
     s\<lparr>chans := (\<lambda>ch. if ch \<in> doneCh ` set rs then [e] else chans s ch),
       blocks := (case blk of None \<Rightarrow> blocks s
                  | Some b \<Rightarrow> (\<lambda>t. if t \<in> block ` set rs then blocks s b else blocks s t))\<rparr>"

section \<open>Scenarios\<close>

text \<open>The state a call of \<open>Request\<close> leaves (the given state if it does not return).\<close>

definition state_after :: "(nat \<times> errchan \<times> state) outcome option \<Rightarrow> state \<Rightarrow> state" where
  "state_after r s = (case r of Some (Return x) \<Rightarrow> snd (snd x) | _ \<Rightarrow> s)"

definition popped :: "(addr option \<times> state) outcome \<Rightarrow> state \<Rightarrow> state" where
  "popped r s = (case r of Return x \<Rightarrow> snd x | _ \<Rightarrow> s)"

text \<open>
  Two callers ask for block pointer 5 at priority 10, with blocks 3 and 4 to fill; a worker
  then claims the retrieval; block 9 is the block fetched, with contents 42.
\<close>

definition two_waiters :: state where
  "two_waiters =
     (let s0 = newBlockRetrievalQueue 1;
          s1 = state_after (Request s0 0 10 7 5 3) s0;
          s2 = state_after (Request s1 1 10 8 5 4) s1;
          s3 = popped (popIfNotEmpty s2) s2
      in s3\<lparr>blocks := (blocks s3)(9 := 42)\<rparr>)"

section \<open>Invariants of the heap\<close>

text \<open>
  The order that \<open>Less\<close> puts on retrievals: \<open>before x y\<close> when \<open>x\<close> is served
  before \<open>y\<close>.
\<close>

definition before :: "blockRetrieval \<Rightarrow> blockRetrieval \<Rightarrow> bool" where
  "before x y = (priority x > priority y
                 \<or> (priority x = priority y \<and> insertionOrder x < insertionOrder y))"

text \<open>
  The index bookkeeping: no retrieval is twice in the slice, the retrieval at position
  \<open>i\<close> has index \<open>i\<close>, and every retrieval outside the slice has the sentinel \<open>-1\<close>.
\<close>

definition idx_ok :: "hp \<Rightarrow> bool" where
  "idx_ok hm = (distinct (fst hm)
     \<and> (\<forall>i < length (fst hm). index (snd hm (fst hm ! i)) = int i)
     \<and> (\<forall>a. a \<notin> set (fst hm) \<longrightarrow> index (snd hm a) = - 1))"

text \<open>The heap condition on the first \<open>n\<close> positions: no element is less than its parent.\<close>

definition heap_ordered :: "hp \<Rightarrow> nat \<Rightarrow> bool" where
  "heap_ordered hm n = (\<forall>k. 0 < k \<and> k < n \<longrightarrow> \<not> Less hm k ((k - 1) div 2))"

definition heap_inv :: "hp \<Rightarrow> bool" where
  "heap_inv hm = (idx_ok hm \<and> heap_ordered hm (Len hm))"

text \<open>The transposition of two positions, and the child that \<open>down\<close> compares with.\<close>

definition tr :: "nat \<Rightarrow> nat \<Rightarrow> nat \<Rightarrow> nat" where
  "tr i j a = (if a = i then j else if a = j then i else a)"

definition dchild :: "hp \<Rightarrow> nat \<Rightarrow> nat \<Rightarrow> nat" where
  "dchild hm i n =
     (if 2 * i + 2 < n \<and> Less hm (2 * i + 2) (2 * i + 1) then 2 * i + 2 else 2 * i + 1)"

section \<open>The queue under concurrency\<close>

text \<open>
  The states the queue can reach, with the set of the retrievals that \<open>popIfNotEmpty\<close> has
  returned so far (the retrievals claimed, by a worker or by a draining goroutine). A step
  is one of the pieces of the source that run without interruption as far as the state they
  touch is concerned:
  \<^item> a whole \<open>Request\<close>, or the part of a \<open>Request\<close> under the lock when a
    \<open>Shutdown\<close> came between its \<open>select\<close> and its \<open>Lock\<close>;
  \<^item> the \<open>select\<close> of a goroutine of \<open>notifyWorker\<close>, on either case;
  \<^item> the \<open>popIfNotEmpty\<close> of such a goroutine, with the send to the worker in the
    second case;
  \<^item> the pieces of a \<open>FinalizeRequest\<close> on a claimed retrieval: the removal from
    \<open>ptrs\<close> under the lock, the call of \<open>cancelFunc\<close>, a \<open>Set\<close> on a block, a send on
    the completion channel of one of its requests when the channel has room;
  \<^item> \<open>Shutdown\<close>; \<open>WorkOnRequest\<close>; a worker or a caller receiving from its channel;
    the contexts of a retrieval all ending (which closes the coalescing context).
\<close>

inductive reachable :: "state \<Rightarrow> addr set \<Rightarrow> bool" where
  r_init: "reachable (newBlockRetrievalQueue n) {}"
| r_request:
    "reachable s C \<Longrightarrow> Request s c prio k ptr blk = Some (Return (m, ch, s'))
     \<Longrightarrow> reachable s' C"
| r_request_late:
    "reachable s C \<Longrightarrow> Request_locked s c prio k ptr blk = Some (Return (m, ch, s'))
     \<Longrightarrow> reachable s' C"
| r_select_done:
    "reachable s C \<Longrightarrow> doneCh_closed s \<Longrightarrow> 0 < notifying s
     \<Longrightarrow> reachable (s\<lparr>notifying := notifying s - 1, draining := Suc (draining s)\<rparr>) C"
| r_select_worker:
    "reachable s C \<Longrightarrow> workerQueue s = ch # q \<Longrightarrow> 0 < notifying s
     \<Longrightarrow> reachable (s\<lparr>notifying := notifying s - 1, workerQueue := q,
                         matching := ch # matching s\<rparr>) C"
| r_pop_drain:
    "reachable s C \<Longrightarrow> 0 < draining s \<Longrightarrow> popIfNotEmpty s = Return (r, s')
     \<Longrightarrow> reachable (s'\<lparr>draining := draining s' - 1\<rparr>) (C \<union> set_option r)"
| r_pop_match:
    "reachable s C \<Longrightarrow> ch \<in> set (matching s) \<Longrightarrow> popIfNotEmpty s = Return (r, s')
     \<Longrightarrow> reachable (s'\<lparr>matching := remove1 ch (matching s'),
                          wchans := (wchans s')(ch := wchans s' ch @ [r])\<rparr>) (C \<union> set_option r)"
| r_finalize_delete:
    "reachable s C \<Longrightarrow> a \<in> C
     \<Longrightarrow> reachable (s\<lparr>ptrs := (ptrs s)(blockPtr (mem s a) := None)\<rparr>) C"
| r_cancel:
    "reachable s C
     \<Longrightarrow> reachable (s\<lparr>mem := (mem s)(a := (mem s a)\<lparr>ctx := cancelFunc (ctx (mem s a))\<rparr>)\<rparr>) C"
| r_set_block:
    "reachable s C \<Longrightarrow> reachable (s\<lparr>blocks := (blocks s)(t := blocks s b)\<rparr>) C"
| r_send:
    "reachable s C \<Longrightarrow> a \<in> C \<Longrightarrow> req \<in> set (requests (mem s a))
     \<Longrightarrow> length (chans s (doneCh req)) < 1
     \<Longrightarrow> reachable (s\<lparr>chans := (chans s)(doneCh req := chans s (doneCh req) @ [e])\<rparr>) C"
| r_receive:
    "reachable s C \<Longrightarrow> reachable (s\<lparr>chans := (chans s)(ch := tl (chans s ch))\<rparr>) C"
| r_worker_receive:
    "reachable s C \<Longrightarrow> reachable (s\<lparr>wchans := (wchans s)(ch := tl (wchans s ch))\<rparr>) C"
| r_Shutdown:
    "reachable s C \<Longrightarrow> Shutdown s = Return (evs, s') \<Longrightarrow> reachable s' C"
| r_WorkOnRequest:
    "reachable s C \<Longrightarrow> WorkOnRequest s = Return (ch, s') \<Longrightarrow> reachable s' C"

text \<open>
  The invariant of the queue: the heap is well formed; it holds exactly the retrievals
  created and not yet claimed; every entry of \<open>ptrs\<close> leads to a retrieval of that block
  pointer; and there are at least as many goroutines of \<open>notifyWorker\<close> still to call
  \<open>popIfNotEmpty\<close> as retrievals in the heap.
\<close>

definition brq_inv :: "state \<Rightarrow> addr set \<Rightarrow> bool" where
  "brq_inv s C =
     (heap_inv (heap s, mem s)
      \<and> set (heap s) = {a. a < nalloc s} - C
      \<and> C \<subseteq> {a. a < nalloc s}
      \<and> (\<forall>p a. ptrs s p = Some a \<longrightarrow> a < nalloc s \<and> blockPtr (mem s a) = p)
      \<and> length (heap s) \<le> notifying s + draining s + length (matching s))"

text \<open>
  The completion channels: every channel of a request has been made; the requests of a
  retrieval have different channels, and no channel belongs to two retrievals; the channels
  of a retrieval that is not claimed are empty.
\<close>

definition chan_inv :: "state \<Rightarrow> addr set \<Rightarrow> bool" where
  "chan_inv s C =
     ((\<forall>a. \<forall>req \<in> set (requests (mem s a)). doneCh req < nchans s)
      \<and> (\<forall>a. distinct (map doneCh (requests (mem s a))))
      \<and> (\<forall>a b. \<forall>req \<in> set (requests (mem s a)). \<forall>req' \<in> set (requests (mem s b)).
             doneCh req = doneCh req' \<longrightarrow> a = b)
      \<and> (\<forall>a. a \<notin> C \<longrightarrow> (\<forall>req \<in> set (requests (mem s a)). chans s (doneCh req) = [])))"


text \<open>
  The state after a call of \<open>Request\<close>.
\<close>

definition after_Request ::
  "state \<Rightarrow> Context \<Rightarrow> int \<Rightarrow> KeyMetadata \<Rightarrow> BlockPointer \<Rightarrow> Block \<Rightarrow> state" where
  "after_Request s c prio k ptr blk = state_after (Request s c prio k ptr blk) s"

text \<open>
  The state after the contexts of the retrieval at \<open>a\<close> have all ended, or its
  \<open>cancelFunc\<close> has run.
\<close>

definition after_cancel :: "state \<Rightarrow> addr \<Rightarrow> state" where
  "after_cancel s a = s\<lparr>mem := (mem s)(a := (mem s a)\<lparr>ctx := cancelFunc (ctx (mem s a))\<rparr>)\<rparr>"

text \<open>
  The state after a call of \<open>Shutdown\<close>.
\<close>

definition after_Shutdown :: "state \<Rightarrow> state" where
  "after_Shutdown s = (case Shutdown s of Return r \<Rightarrow> snd r | _ \<Rightarrow> s)"

text \<open>
  The state after a worker has called \<open>WorkOnRequest\<close>.
\<close>

definition after_WorkOnRequest :: "state \<Rightarrow> state" where
  "after_WorkOnRequest s = (case WorkOnRequest s of Return r \<Rightarrow> snd r | _ \<Rightarrow> s)"

text \<open>
  The state after a goroutine of \<open>notifyWorker\<close> has taken the first worker channel of the
  worker queue in its \<open>select\<close>.
\<close>

definition after_select_worker :: "state \<Rightarrow> state" where
  "after_select_worker s =
     (case workerQueue s of
        [] \<Rightarrow> s
      | ch # q \<Rightarrow>
          if 0 < notifying s
          then s\<lparr>notifying := notifying s - 1, workerQueue := q, matching := ch # matching s\<rparr>
          else s)"

text \<open>
  The state after a goroutine holding a worker channel has called \<open>popIfNotEmpty\<close> and
  sent the result to the worker.
\<close>

definition after_pop_match :: "state \<Rightarrow> state" where
  "after_pop_match s =
     (case matching s of
        [] \<Rightarrow> s
      | ch # _ \<Rightarrow>
          (case popIfNotEmpty s of
             Return r \<Rightarrow> (snd r)\<lparr>matching := remove1 ch (matching (snd r)),
                                  wchans := (wchans (snd r))(ch := wchans (snd r) ch @ [fst r])\<rparr>
           | _ \<Rightarrow> s))"

text \<open>
  The retrieval that this call of \<open>popIfNotEmpty\<close> hands to the worker, if any.
\<close>

definition claimed_by_pop :: "state \<Rightarrow> addr set" where
  "claimed_by_pop s =
     (case matching s of
        [] \<Rightarrow> {}
      | ch # _ \<Rightarrow> (case popIfNotEmpty s of Return r \<Rightarrow> set_option (fst r) | _ \<Rightarrow> {}))"

text \<open>
  One caller asks for block pointer 5 at priority 10.
\<close>

definition sc_X10 :: state where
  "sc_X10 = after_Request (newBlockRetrievalQueue 1) 0 10 7 5 3"

text \<open>
  One caller asks for block pointer 5; its context ends; a second caller asks for block
  pointer 5: the cancellation race.
\<close>

definition sc_race :: state where
  "sc_race = after_Request (after_cancel sc_X10 0) 1 10 8 5 4"

text \<open>
  A worker waits; one caller asks for block pointer 5 at priority 10; its matching goroutine
  hands the retrieval to the worker.
\<close>

definition sc_claimed :: state where
  "sc_claimed =
     after_pop_match (after_select_worker
       (after_Request (after_WorkOnRequest (newBlockRetrievalQueue 1)) 0 10 7 5 3))"

text \<open>
  Then a second caller asks for block pointer 5, at priority 50.
\<close>

definition sc_late :: state where
  "sc_late = after_Request sc_claimed 1 50 8 5 4"

text \<open>
  One caller asks for block pointer 5 at priority 10, then one for block pointer 6 at
  priority 50, and no worker has claimed anything.
\<close>

definition sc_XY :: state where
  "sc_XY = after_Request sc_X10 1 50 8 6 4"

text \<open>
  One caller asks for block pointer 5 at priority 10, then the queue is shut down.
\<close>

definition sc_shutdown :: state where
  "sc_shutdown = after_Shutdown sc_X10"

text \<open>
  A sequence of calls of \<open>Request\<close> on one block pointer, each with its context, priority,
  key metadata and block, with nothing else happening in between.
\<close>

fun Request_seq ::
  "state \<Rightarrow> BlockPointer \<Rightarrow> (Context \<times> int \<times> KeyMetadata \<times> Block) list \<Rightarrow> state" where
  "Request_seq s ptr [] = s"
| "Request_seq s ptr (r # rs) =
     Request_seq (after_Request s (fst r) (fst (snd r)) (fst (snd (snd r))) ptr (snd (snd (snd r))))
       ptr rs"

text \<open>
  The worker channels that wait in the worker queue or in the hands of a matching goroutine
  are all different, have been made, and are empty.
\<close>

definition wq_inv :: "state \<Rightarrow> bool" where
  "wq_inv s =
     (distinct (workerQueue s @ matching s)
      \<and> (\<forall>ch \<in> set (workerQueue s @ matching s). ch < nwchans s \<and> wchans s ch = []))"

text \<open>
  A worker waits; one caller asks for block pointer 5 at priority 10.
\<close>

definition sc_waiting :: state where
  "sc_waiting = after_Request (after_WorkOnRequest (newBlockRetrievalQueue 1)) 0 10 7 5 3"

text \<open>
  \<open>Shutdown\<close> in its two steps, between which the source holds no lock: the \<open>select\<close>,
  which says whether the default case is taken, and what follows, the \<open>close\<close> when it
  was.
\<close>

definition Shutdown_select :: "state \<Rightarrow> bool" where
  "Shutdown_select s = (\<not> doneCh_closed s)"

definition Shutdown_finish :: "bool \<Rightarrow> state \<Rightarrow> (event list \<times> state) outcome" where
  "Shutdown_finish dflt s = (if dflt then close_doneCh s else Return ([], s))"

text \<open>
  Two calls of \<open>Shutdown\<close> that overlap: both run their \<open>select\<close> before either goes
  on.
\<close>

definition Shutdown_overlapping :: "state \<Rightarrow> (event list \<times> state) outcome" where
  "Shutdown_overlapping s =
     (let d1 = Shutdown_select s;
          d2 = Shutdown_select s
      in case Shutdown_finish d1 s of
           Return r \<Rightarrow>
             (case Shutdown_finish d2 (snd r) of
                Return r' \<Rightarrow> Return (fst r @ fst r', snd r')
              | Panic \<Rightarrow> Panic
              | Blocks \<Rightarrow> Blocks)
         | Panic \<Rightarrow> Panic
         | Blocks \<Rightarrow> Blocks)"

text \<open>
  The state after a goroutine of \<open>notifyWorker\<close> has run from its \<open>select\<close>, on the
  given case, to its end.
\<close>

definition after_run :: "state \<Rightarrow> select_case \<Rightarrow> state" where
  "after_run s sc = (case notifyWorker_run s sc of Return r \<Rightarrow> snd r | _ \<Rightarrow> s)"

text \<open>
  One caller asks for block pointer 5 at priority 10, then one for block pointer 6 at
  priority 50; the queue is shut down, with both retrievals in the heap and both matching
  goroutines still at their \<open>select\<close>.
\<close>

definition sc_XY_shutdown :: state where
  "sc_XY_shutdown = after_Shutdown sc_XY"

text \<open>Then one of the two goroutines takes the case of the closed \<open>doneCh\<close>.\<close>

definition sc_drained :: state where
  "sc_drained = after_run sc_XY_shutdown DoneCase"

text \<open>
  Then a worker calls \<open>WorkOnRequest\<close>, and the other goroutine takes the worker's channel.
\<close>

definition sc_handed :: state where
  "sc_handed = after_run (after_WorkOnRequest sc_drained) WorkerCase"

section \<open>Shutdown\<close>

lemma Shutdown_closed: "doneCh_closed s \<Longrightarrow> Shutdown s = Return ([], s)"
  by (simp add: Shutdown_def)

lemma Shutdown_open:
  "\<not> doneCh_closed s \<Longrightarrow> Shutdown s = Return ([CloseDoneCh], s\<lparr>doneCh_closed := True\<rparr>)"
  by (simp add: Shutdown_def close_doneCh_def)

lemma Shutdown_times_closed:
  "doneCh_closed s \<Longrightarrow> Shutdown_times n s = Return ([], s)"
  by (induction n) (simp_all add: Shutdown_closed)

text \<open>
  C8, amended: \<open>Shutdown\<close> is idempotent over calls that run one after another. On a
  queue whose \<open>doneCh\<close> is open, any positive number of such calls closes the channel
  exactly once (one \<open>close\<close> among all that the calls did, and no panic from closing a
  closed channel) and leaves the state that one call leaves; on a queue whose \<open>doneCh\<close>
  is closed, any number of calls does nothing.
\<close>

theorem Shutdown_idempotent:
  "Shutdown_times (Suc n) (s\<lparr>doneCh_closed := False\<rparr>)
     = Return ([CloseDoneCh], s\<lparr>doneCh_closed := True\<rparr>)
   \<and> Shutdown_times (Suc n) (s\<lparr>doneCh_closed := False\<rparr>) = Shutdown (s\<lparr>doneCh_closed := False\<rparr>)
   \<and> Shutdown_times n (s\<lparr>doneCh_closed := True\<rparr>) = Return ([], s\<lparr>doneCh_closed := True\<rparr>)"
  by (simp add: Shutdown_open Shutdown_times_closed)

lemma Shutdown_steps: "Shutdown s = Shutdown_finish (Shutdown_select s) s"
  by (simp add: Shutdown_def Shutdown_finish_def Shutdown_select_def)

text \<open>
  C8, as stated, fails for calls that overlap: \<open>Shutdown\<close> tests \<open>doneCh\<close> and closes
  it without a lock in between. On a new queue two calls both find the channel open in
  their \<open>select\<close>; the first \<open>close\<close> closes it, the second \<open>close\<close> is the close
  of a closed channel, which panics.
\<close>

theorem Shutdown_overlapping_counterexample:
  "Shutdown_select (newBlockRetrievalQueue 1)
   \<and> Shutdown_finish True (newBlockRetrievalQueue 1)
       = Return ([CloseDoneCh], (newBlockRetrievalQueue 1)\<lparr>doneCh_closed := True\<rparr>)
   \<and> Shutdown_finish True ((newBlockRetrievalQueue 1)\<lparr>doneCh_closed := True\<rparr>) = Panic
   \<and> Shutdown_overlapping (newBlockRetrievalQueue 1) = Panic"
  by (simp add: Shutdown_overlapping_def Shutdown_finish_def Shutdown_select_def
        close_doneCh_def newBlockRetrievalQueue_def)

section \<open>Requests after shutdown\<close>

text \<open>
  C5: a \<open>Request\<close> on a queue whose \<open>doneCh\<close> is closed returns, without entering the
  loop, a new channel that already holds the shutdown error \<open>io.EOF\<close>; the registry, the
  heap, the retrievals, the insertion counter, the worker queue and the number of matching
  goroutines are as before.
\<close>

theorem Request_after_Shutdown:
  assumes "doneCh_closed s"
  shows "\<exists>ch s'. Request s c prio k ptr blk = Some (Return (0, ch, s'))
           \<and> chans s' ch = [Some EOF]
           \<and> ptrs s' = ptrs s \<and> heap s' = heap s \<and> mem s' = mem s
           \<and> insertionCount s' = insertionCount s \<and> notifying s' = notifying s
           \<and> workerQueue s' = workerQueue s"
  using assms by (simp add: Request_def Let_def)

theorem Request_after_Shutdown_witness:
  "doneCh_closed (snd (case Shutdown (newBlockRetrievalQueue 1) of Return r \<Rightarrow> r))
   \<and> (\<exists>ch s'. Request (snd (case Shutdown (newBlockRetrievalQueue 1) of Return r \<Rightarrow> r)) 0 10 7 5 3
                 = Some (Return (0, ch, s'))
        \<and> chans s' ch = [Some EOF]
        \<and> ptrs s' = Map.empty \<and> heap s' = [] \<and> insertionCount s' = 0)"
proof -
  let ?s = "snd (case Shutdown (newBlockRetrievalQueue 1) of Return r \<Rightarrow> r)"
  have c: "doneCh_closed ?s"
    by (simp add: Shutdown_def close_doneCh_def newBlockRetrievalQueue_def)
  have p: "ptrs ?s = Map.empty" "heap ?s = []" "insertionCount ?s = 0"
    by (simp_all add: Shutdown_def close_doneCh_def newBlockRetrievalQueue_def)
  from Request_after_Shutdown [OF c, of 0 10 7 5 3] p c show ?thesis
    by metis
qed

section \<open>The quota usage cache\<close>

text \<open>
  C10: when the remote call fails, \<open>getAndCache\<close> returns the error and leaves the whole
  object, so the cached usage, as it was, and a \<open>Get\<close> that blocks on it (the cached
  data is older than the tolerance) returns \<open>-1\<close>, \<open>-1\<close> and the error; when the
  remote call succeeds, the cache becomes the fetched usage and limit with the time of the
  clock, which is also the value returned.
\<close>

theorem getAndCache_atomic:
  "snd (getAndCache q (Inl e) now) = q
   \<and> snd (fst (getAndCache q (Inl e) now)) = Some e
   \<and> (time_Sub now0 (timestamp (cached q)) > tolerance \<longrightarrow>
        Get q tolerance now0 (Inl e) now = ((- 1, - 1, Some e), q))
   \<and> cached (snd (getAndCache q (Inr info) now))
        = \<lparr>timestamp = now,
           usageBytes = (case Total info of Some t \<Rightarrow> Bytes_at t UsageWrite | None \<Rightarrow> 0),
           limitBytes = Limit info\<rparr>
   \<and> snd (fst (getAndCache q (Inr info) now)) = None
   \<and> fst (fst (getAndCache q (Inr info) now)) = cached (snd (getAndCache q (Inr info) now))"
  by (simp add: getAndCache_def Get_def Let_def)

theorem getAndCache_atomic_witness:
  "time_Sub 100 (timestamp (cached \<lparr>backgroundInProcess = 0,
        cached = \<lparr>timestamp = 0, usageBytes = 5, limitBytes = 9\<rparr>, background = 0\<rparr>)) > 10
   \<and> Get \<lparr>backgroundInProcess = 0,
          cached = \<lparr>timestamp = 0, usageBytes = 5, limitBytes = 9\<rparr>, background = 0\<rparr>
        10 100 (Inl (FetchError 1)) 101
      = ((- 1, - 1, Some (FetchError 1)),
         \<lparr>backgroundInProcess = 0,
          cached = \<lparr>timestamp = 0, usageBytes = 5, limitBytes = 9\<rparr>, background = 0\<rparr>)"
proof -
  let ?q = "\<lparr>backgroundInProcess = 0,
        cached = \<lparr>timestamp = 0, usageBytes = 5, limitBytes = 9\<rparr>, background = 0\<rparr>"
  have h: "time_Sub 100 (timestamp (cached ?q)) > 10"
    by (simp add: time_Sub_def)
  from getAndCache_atomic [of ?q "FetchError 1" 101 10 100] h show ?thesis
    by blast
qed

section \<open>Finalization\<close>

lemma sends_of_append: "sends_of (xs @ ys) = sends_of xs @ sends_of ys"
  by (induction xs rule: sends_of.induct) simp_all

lemma sends_of_notify_trace:
  "sends_of (notify_trace rs blk e) = map (\<lambda>req. (doneCh req, e)) rs"
  by (induction rs) (simp_all add: notify_trace_def sends_of_append split: option.splits)

lemma notified_Cons_None:
  "doneCh req \<notin> doneCh ` set rs \<Longrightarrow> chans s (doneCh req) = [] \<Longrightarrow>
   notified (s\<lparr>chans := (chans s)(doneCh req := [e])\<rparr>) rs None e = notified s (req # rs) None e"
  by (simp add: notified_def fun_eq_iff)

lemma notified_Cons_Some:
  "doneCh req \<notin> doneCh ` set rs \<Longrightarrow> chans s (doneCh req) = [] \<Longrightarrow>
   notified (s\<lparr>blocks := (blocks s)(block req := blocks s b), chans := (chans s)(doneCh req := [e])\<rparr>)
      rs (Some b) e = notified s (req # rs) (Some b) e"
  by (simp add: notified_def fun_eq_iff)

lemma notify_requests_None:
  "distinct (map doneCh rs) \<Longrightarrow> (\<forall>req \<in> set rs. chans s (doneCh req) = [])
   \<Longrightarrow> notify_requests s rs None e = Return (notify_trace rs None e, notified s rs None e)"
proof (induction rs arbitrary: s)
  case Nil
  then show ?case by (simp add: notify_trace_def notified_def)
next
  case (Cons req rs)
  let ?s2 = "s\<lparr>chans := (chans s)(doneCh req := [e])\<rparr>"
  have d: "distinct (map doneCh rs)" and n: "doneCh req \<notin> doneCh ` set rs"
    using Cons.prems(1) by simp_all
  have emp: "chans s (doneCh req) = []" using Cons.prems(2) by simp
  have e: "\<forall>r \<in> set rs. chans ?s2 (doneCh r) = []"
    using Cons.prems(2) n by (simp add: image_iff) metis
  have ih: "notify_requests ?s2 rs None e = Return (notify_trace rs None e, notified s (req # rs) None e)"
    using Cons.IH [OF d e] notified_Cons_None [OF n emp] by simp
  have tr: "[SendErr (doneCh req) e] @ notify_trace rs None e = notify_trace (req # rs) None e"
    by (simp add: notify_trace_def)
  show ?case
    using ih emp tr by (simp add: Let_def)
qed


lemma notify_requests_Some:
  "distinct (map doneCh rs) \<Longrightarrow> (\<forall>req \<in> set rs. chans s (doneCh req) = [])
   \<Longrightarrow> notify_requests s rs (Some b) e
         = Return (notify_trace rs (Some b) e, notified s rs (Some b) e)"
proof (induction rs arbitrary: s)
  case Nil
  then show ?case by (simp add: notify_trace_def notified_def)
next
  case (Cons req rs)
  let ?s1 = "s\<lparr>blocks := (blocks s)(block req := blocks s b)\<rparr>"
  let ?s2 = "s\<lparr>blocks := (blocks s)(block req := blocks s b),
               chans := (chans s)(doneCh req := [e])\<rparr>"
  have d: "distinct (map doneCh rs)" and n: "doneCh req \<notin> doneCh ` set rs"
    using Cons.prems(1) by simp_all
  have emp: "chans s (doneCh req) = []" using Cons.prems(2) by simp
  have e: "\<forall>r \<in> set rs. chans ?s2 (doneCh r) = []"
    using Cons.prems(2) n by (simp add: image_iff) metis
  have ih: "notify_requests ?s2 rs (Some b) e
              = Return (notify_trace rs (Some b) e, notified s (req # rs) (Some b) e)"
    using Cons.IH [OF d e] notified_Cons_Some [OF n emp] by simp
  have tr: "[SetBlock (block req) b, SendErr (doneCh req) e] @ notify_trace rs (Some b) e
              = notify_trace (req # rs) (Some b) e"
    by (simp add: notify_trace_def)
  show ?case
    using ih emp tr by (simp add: Let_def)
qed

lemma notify_requests_Return:
  "distinct (map doneCh rs) \<Longrightarrow> (\<forall>req \<in> set rs. chans s (doneCh req) = [])
   \<Longrightarrow> notify_requests s rs blk e = Return (notify_trace rs blk e, notified s rs blk e)"
  by (cases blk) (simp_all add: notify_requests_None notify_requests_Some)

text \<open>
  C1: one call of \<open>FinalizeRequest\<close> on a retrieval whose requests have pairwise different
  completion channels, all empty (each was made with one slot by \<open>Request\<close> and nothing
  has been sent on it), returns without blocking; what it did is, for each request in the
  order of the list, the copy of the block into the request's block when a block is given,
  then one send of the given error value; so there are as many sends as requests, one on
  each request's channel, which afterwards holds exactly that value; no other channel
  changes; with a block, every request's block has the contents of the block given.
\<close>

theorem FinalizeRequest_notifies:
  assumes "distinct (map doneCh (requests (mem s a)))"
    and "\<forall>req \<in> set (requests (mem s a)). chans s (doneCh req) = []"
  shows "\<exists>evs s'. FinalizeRequest s a blk e = Return (evs, s')
           \<and> evs = notify_trace (requests (mem s a)) blk e
           \<and> sends_of evs = map (\<lambda>req. (doneCh req, e)) (requests (mem s a))
           \<and> length (sends_of evs) = length (requests (mem s a))
           \<and> (\<forall>req \<in> set (requests (mem s a)). chans s' (doneCh req) = [e])
           \<and> (\<forall>ch. ch \<notin> doneCh ` set (requests (mem s a)) \<longrightarrow> chans s' ch = chans s ch)
           \<and> (\<forall>b. blk = Some b \<longrightarrow>
                 (\<forall>req \<in> set (requests (mem s a)). blocks s' (block req) = blocks s b))
           \<and> (blk = None \<longrightarrow> blocks s' = blocks s)
           \<and> ptrs s' = (ptrs s)(blockPtr (mem s a) := None)"
proof -
  let ?s2 = "s\<lparr>ptrs := (ptrs s)(blockPtr (mem s a) := None),
               mem := (mem s)(a := (mem s a)\<lparr>ctx := cancelFunc (ctx (mem s a))\<rparr>)\<rparr>"
  let ?rs = "requests (mem s a)"
  have r: "requests (mem ?s2 a) = ?rs" by simp
  have e: "\<forall>req \<in> set ?rs. chans ?s2 (doneCh req) = []" using assms(2) by simp
  have f: "FinalizeRequest s a blk e = Return (notify_trace ?rs blk e, notified ?s2 ?rs blk e)"
    using notify_requests_Return [OF assms(1) e, of blk e]
    by (simp add: FinalizeRequest_def Let_def)
  have c: "\<forall>req \<in> set ?rs. chans (notified ?s2 ?rs blk e) (doneCh req) = [e]"
    by (simp add: notified_def)
  have c': "\<forall>ch. ch \<notin> doneCh ` set ?rs \<longrightarrow> chans (notified ?s2 ?rs blk e) ch = chans s ch"
    by (simp add: notified_def)
  have b: "\<forall>b. blk = Some b \<longrightarrow>
             (\<forall>req \<in> set ?rs. blocks (notified ?s2 ?rs blk e) (block req) = blocks s b)"
    by (simp add: notified_def)
  have b': "blk = None \<longrightarrow> blocks (notified ?s2 ?rs blk e) = blocks s"
    by (simp add: notified_def)
  have p: "ptrs (notified ?s2 ?rs blk e) = (ptrs s)(blockPtr (mem s a) := None)"
    by (simp add: notified_def)
  show ?thesis
    using f c c' b b' p by (simp add: sends_of_notify_trace)
qed

theorem FinalizeRequest_notifies_witness:
  "requests (mem two_waiters 0) = [\<lparr>block = 3, doneCh = 0\<rparr>, \<lparr>block = 4, doneCh = 1\<rparr>]
   \<and> chans two_waiters 0 = [] \<and> chans two_waiters 1 = []
   \<and> (\<exists>s'. FinalizeRequest two_waiters 0 (Some 9) None
               = Return ([SetBlock 3 9, SendErr 0 None, SetBlock 4 9, SendErr 1 None], s')
         \<and> chans s' 0 = [None] \<and> chans s' 1 = [None]
         \<and> blocks s' 3 = 42 \<and> blocks s' 4 = 42 \<and> ptrs s' 5 = None)"
proof -
  have r: "requests (mem two_waiters 0) = [\<lparr>block = 3, doneCh = 0\<rparr>, \<lparr>block = 4, doneCh = 1\<rparr>]"
    by code_simp
  have c: "chans two_waiters 0 = []" "chans two_waiters 1 = []" "chans two_waiters (Suc 0) = []"
    by code_simp+
  have b: "blocks two_waiters 9 = 42" "blockPtr (mem two_waiters 0) = 5"
    by code_simp+
  have h1: "distinct (map doneCh (requests (mem two_waiters 0)))"
    by (simp add: r)
  have h2: "\<forall>req \<in> set (requests (mem two_waiters 0)). chans two_waiters (doneCh req) = []"
    by (simp add: r c)
  from FinalizeRequest_notifies [OF h1 h2, of "Some 9" None]
  obtain evs s' where f: "FinalizeRequest two_waiters 0 (Some 9) None = Return (evs, s')"
    and t: "evs = notify_trace (requests (mem two_waiters 0)) (Some 9) None"
    and ch: "\<forall>req \<in> set (requests (mem two_waiters 0)). chans s' (doneCh req) = [None]"
    and bl: "\<forall>req \<in> set (requests (mem two_waiters 0)). blocks s' (block req) = blocks two_waiters 9"
    and p: "ptrs s' = (ptrs two_waiters)(blockPtr (mem two_waiters 0) := None)"
    by auto
  have "evs = [SetBlock 3 9, SendErr 0 None, SetBlock 4 9, SendErr 1 None]"
    by (simp add: t r notify_trace_def)
  moreover have "chans s' 0 = [None]" "chans s' 1 = [None]" using ch by (simp_all add: r)
  moreover have "blocks s' 3 = 42" "blocks s' 4 = 42" using bl by (simp_all add: r b)
  moreover have "ptrs s' 5 = None" by (simp add: p b)
  ultimately show ?thesis using f r c by blast
qed

section \<open>Correctness of the heap operations\<close>

lemma Less_before: "Less hm i j = before (snd hm (fst hm ! i)) (snd hm (fst hm ! j))"
  by (auto simp: Less_def before_def Let_def)

lemma before_asym: "before x y \<Longrightarrow> \<not> before y x"
  by (auto simp: before_def)

lemma before_trans: "before x y \<Longrightarrow> before y z \<Longrightarrow> before x z"
  by (auto simp: before_def)

lemma not_before_trans: "\<not> before y x \<Longrightarrow> \<not> before z y \<Longrightarrow> \<not> before z x"
  by (auto simp: before_def)

lemma before_not_before: "before x y \<Longrightarrow> \<not> before z y \<Longrightarrow> before x z"
  by (auto simp: before_def)

lemma Swap_fst: "fst (Swap hm i j) = (fst hm)[i := fst hm ! j, j := fst hm ! i]"
  by (simp add: Swap_def Let_def)

lemma Swap_frame: "(snd (Swap hm i j) a)\<lparr>index := x\<rparr> = (snd hm a)\<lparr>index := x\<rparr>"
  by (simp add: Swap_def Let_def)

lemma Swap_priority: "priority (snd (Swap hm i j) a) = priority (snd hm a)"
  by (simp add: Swap_def Let_def)

lemma Swap_insertionOrder: "insertionOrder (snd (Swap hm i j) a) = insertionOrder (snd hm a)"
  by (simp add: Swap_def Let_def)

lemma Swap_before:
  "before (snd (Swap hm i j) a) (snd (Swap hm i j) b) = before (snd hm a) (snd hm b)"
  by (simp add: before_def Swap_priority Swap_insertionOrder)

lemma Swap_Len: "Len (Swap hm i j) = Len hm"
  by (simp add: Swap_fst Len_def)


lemma Swap_nth:
  "i < length (fst hm) \<Longrightarrow> j < length (fst hm) \<Longrightarrow> a < length (fst hm)
   \<Longrightarrow> fst (Swap hm i j) ! a = fst hm ! tr i j a"
  by (auto simp: Swap_fst tr_def nth_list_update)

lemma Less_Swap:
  "i < Len hm \<Longrightarrow> j < Len hm \<Longrightarrow> a < Len hm \<Longrightarrow> b < Len hm
   \<Longrightarrow> Less (Swap hm i j) a b = Less hm (tr i j a) (tr i j b)"
  by (simp add: Less_before Swap_before Swap_nth Len_def)

lemma Swap_set: "i < Len hm \<Longrightarrow> j < Len hm \<Longrightarrow> set (fst (Swap hm i j)) = set (fst hm)"
  by (simp add: Swap_fst Len_def)

lemma Swap_distinct:
  "i < Len hm \<Longrightarrow> j < Len hm \<Longrightarrow> distinct (fst (Swap hm i j)) = distinct (fst hm)"
  by (simp add: Swap_fst Len_def)

lemma Swap_idx_ok:
  assumes "idx_ok hm" "i < Len hm" "j < Len hm"
  shows "idx_ok (Swap hm i j)"
proof -
  let ?h = "fst hm" and ?m = "snd hm"
  have d: "distinct ?h" and ix: "\<And>k. k < length ?h \<Longrightarrow> index (?m (?h ! k)) = int k"
    and out: "\<And>a. a \<notin> set ?h \<Longrightarrow> index (?m a) = - 1"
    using assms(1) by (auto simp: idx_ok_def)
  have i: "i < length ?h" and j: "j < length ?h" using assms by (simp_all add: Len_def)
  have s: "set (fst (Swap hm i j)) = set ?h"
    using Swap_set [OF assms(2,3)] .
  have d': "distinct (fst (Swap hm i j))"
    using Swap_distinct [OF assms(2,3)] d by simp
  have snd_eq: "snd (Swap hm i j) = (?m(?h ! j := (?m (?h ! j))\<lparr>index := int i\<rparr>))
                   (?h ! i := ((?m(?h ! j := (?m (?h ! j))\<lparr>index := int i\<rparr>)) (?h ! i))\<lparr>index := int j\<rparr>)"
    using i j by (simp add: Swap_def Let_def nth_list_update)
  have ix': "index (snd (Swap hm i j) (fst (Swap hm i j) ! k)) = int k" if k: "k < length ?h" for k
  proof -
    have n: "fst (Swap hm i j) ! k = ?h ! tr i j k" using Swap_nth [OF i j k] .
    have inj: "\<And>a b. a < length ?h \<Longrightarrow> b < length ?h \<Longrightarrow> (?h ! a = ?h ! b) = (a = b)"
      using d by (simp add: nth_eq_iff_index_eq)
    show ?thesis
      using i j k ix [OF k] ix [OF i] ix [OF j]
      by (auto simp: n snd_eq tr_def inj)
  qed
  have out': "index (snd (Swap hm i j) a) = - 1" if "a \<notin> set (fst (Swap hm i j))" for a
  proof -
    have a: "a \<notin> set ?h" using that s by simp
    then have "a \<noteq> ?h ! i" "a \<noteq> ?h ! j" using i j by (metis nth_mem)+
    then show ?thesis using out [OF a] by (simp add: snd_eq)
  qed
  show ?thesis
    unfolding idx_ok_def using d' ix' out' by (simp add: Swap_fst)
qed


lemma parent_eq: "0 < (k::nat) \<Longrightarrow> ((k - 1) div 2 = i) = (k = 2 * i + 1 \<or> k = 2 * i + 2)"
  by presburger

lemma parent_less: "0 < (k::nat) \<Longrightarrow> (k - 1) div 2 < k"
  by presburger

lemma heap_up_stop:
  "j = 0 \<or> \<not> Less hm j ((j - 1) div 2) \<Longrightarrow> heap_up hm j = hm"
  by (subst heap_up.simps) (auto simp: Let_def)

lemma heap_up_step:
  "0 < j \<Longrightarrow> Less hm j ((j - 1) div 2)
   \<Longrightarrow> heap_up hm j = heap_up (Swap hm ((j - 1) div 2) j) ((j - 1) div 2)"
  by (subst heap_up.simps) (auto simp: Let_def)

lemma heap_up_induct [case_names step]:
  assumes "\<And>hm j. (0 < j \<Longrightarrow> Less hm j ((j - 1) div 2)
              \<Longrightarrow> P (Swap hm ((j - 1) div 2) j) ((j - 1) div 2)) \<Longrightarrow> P hm j"
  shows "P hm j"
proof (induction hm j rule: heap_up.induct)
  case (1 hm j)
  show ?case
  proof (rule assms)
    assume "0 < j" "Less hm j ((j - 1) div 2)"
    then show "P (Swap hm ((j - 1) div 2) j) ((j - 1) div 2)"
      using 1 [OF refl] by auto
  qed
qed


lemma heap_down_loop_stop:
  "n \<le> 2 * i + 1 \<or> \<not> Less hm (dchild hm i n) i \<Longrightarrow> heap_down_loop hm i n = (hm, i)"
  by (subst heap_down_loop.simps) (auto simp: Let_def dchild_def)

lemma heap_down_loop_step:
  "2 * i + 1 < n \<Longrightarrow> Less hm (dchild hm i n) i
   \<Longrightarrow> heap_down_loop hm i n = heap_down_loop (Swap hm i (dchild hm i n)) (dchild hm i n) n"
  by (subst heap_down_loop.simps) (auto simp: Let_def dchild_def)

lemma heap_down_loop_induct [case_names step]:
  assumes "\<And>hm i n. (2 * i + 1 < n \<Longrightarrow> Less hm (dchild hm i n) i
              \<Longrightarrow> P (Swap hm i (dchild hm i n)) (dchild hm i n) n) \<Longrightarrow> P hm i n"
  shows "P hm i n"
proof (induction hm i n rule: heap_down_loop.induct)
  case (1 hm i n)
  show ?case
  proof (rule assms)
    assume a: "2 * i + 1 < n" "Less hm (dchild hm i n) i"
    have eq: "(if 2 * i + 1 + 1 < n \<and> Less hm (2 * i + 1 + 1) (2 * i + 1) then 2 * i + 1 + 1 else 2 * i + 1)
                = dchild hm i n"
      by (simp add: dchild_def)
    have "P (Swap hm i (if 2 * i + 1 + 1 < n \<and> Less hm (2 * i + 1 + 1) (2 * i + 1) then 2 * i + 1 + 1 else 2 * i + 1))
             (if 2 * i + 1 + 1 < n \<and> Less hm (2 * i + 1 + 1) (2 * i + 1) then 2 * i + 1 + 1 else 2 * i + 1) n"
      apply (rule 1 [OF refl _ refl])
      using a by (auto simp: dchild_def)
    then show "P (Swap hm i (dchild hm i n)) (dchild hm i n) n"
      unfolding eq .
  qed
qed

lemma heap_up_Len: "Len (heap_up hm j) = Len hm"
proof (induction hm j rule: heap_up_induct)
  case (step hm j)
  show ?case
  proof (cases "0 < j \<and> Less hm j ((j - 1) div 2)")
    case True
    then show ?thesis using step by (simp add: heap_up_step Swap_Len)
  next
    case False
    then show ?thesis by (simp add: heap_up_stop)
  qed
qed

lemma heap_up_ordered:
  assumes "j < Len hm"
    and "\<forall>k. 0 < k \<and> k < Len hm \<and> k \<noteq> j \<longrightarrow> \<not> Less hm k ((k - 1) div 2)"
    and "\<forall>k. 0 < k \<and> k < Len hm \<and> (k - 1) div 2 = j \<and> 0 < j \<longrightarrow> \<not> Less hm k ((j - 1) div 2)"
  shows "heap_ordered (heap_up hm j) (Len hm)"
  using assms
proof (induction hm j rule: heap_up_induct)
  case (step hm j)
  show ?case
  proof (cases "0 < j \<and> Less hm j ((j - 1) div 2)")
    case False
    then have "heap_up hm j = hm" by (simp add: heap_up_stop)
    moreover have "heap_ordered hm (Len hm)"
      unfolding heap_ordered_def using step.prems(2) False by metis
    ultimately show ?thesis by simp
  next
    case True
    define i where "i = (j - 1) div 2"
    define hm' where "hm' = Swap hm i j"
    define v where "v a = snd hm (fst hm ! a)" for a
    define p where "p k = (k - 1) div 2" for k :: nat
    have pj: "p j = i" by (simp add: p_def i_def)
    have pl: "\<And>k. 0 < k \<Longrightarrow> p k < k" unfolding p_def by (rule parent_less)
    have j: "j < Len hm" "0 < j" and ij: "i < j" "i \<noteq> j" and i: "i < Len hm"
      using step.prems(1) True parent_less [of j] by (auto simp: i_def)
    have L: "\<And>a b. Less hm a b = before (v a) (v b)"
      by (simp add: Less_before v_def)
    have L': "\<And>a b. a < Len hm \<Longrightarrow> b < Len hm \<Longrightarrow> Less hm' a b = before (v (tr i j a)) (v (tr i j b))"
      unfolding hm'_def using Less_Swap [OF i j(1)] by (simp add: L)
    have bji: "before (v j) (v i)" using True by (simp add: L i_def)
    have P2: "\<And>k. 0 < k \<Longrightarrow> k < Len hm \<Longrightarrow> k \<noteq> j \<Longrightarrow> \<not> before (v k) (v (p k))"
      using step.prems(2) by (simp add: L p_def)
    have P3: "\<And>k. 0 < k \<Longrightarrow> k < Len hm \<Longrightarrow> p k = j \<Longrightarrow> \<not> before (v k) (v i)"
      using step.prems(3) True by (simp add: L p_def i_def)
    have A: "\<not> Less hm' k (p k)" if k: "0 < k" "k < Len hm" "k \<noteq> i" for k
    proof -
      have pk: "p k < Len hm" "p k \<noteq> k" using k pl [of k] by simp_all
      have LL: "Less hm' k (p k) = before (v (tr i j k)) (v (tr i j (p k)))"
        using L' [OF k(2) pk(1)] .
      show ?thesis
      proof (cases "k = j")
        case True
        have "tr i j k = i" "tr i j (p k) = j" using True pj ij by (simp_all add: tr_def)
        then show ?thesis using LL bji before_asym by simp
      next
        case kj: False
        have tk: "tr i j k = k" using kj k(3) by (simp add: tr_def)
        consider (a) "p k = j" | (b) "p k = i" | (c) "p k \<noteq> j" "p k \<noteq> i" by blast
        then show ?thesis
        proof cases
          case a
          then have "tr i j (p k) = i" using ij by (simp add: tr_def)
          then show ?thesis using LL tk P3 [OF k(1,2) a] by simp
        next
          case b
          then have t: "tr i j (p k) = j" by (simp add: tr_def)
          have "\<not> before (v k) (v i)" using P2 [OF k(1,2) kj] b by simp
          then have "\<not> before (v k) (v j)" using bji before_trans by blast
          then show ?thesis using LL tk t by simp
        next
          case c
          then have "tr i j (p k) = p k" by (simp add: tr_def)
          then show ?thesis using LL tk P2 [OF k(1,2) kj] by simp
        qed
      qed
    qed
    have B: "\<not> Less hm' k (p i)" if k: "0 < k" "k < Len hm" "p k = i" "0 < i" for k
    proof -
      have q: "p i < i" using k(4) by (rule pl)
      then have q': "p i < Len hm" "p i \<noteq> i" "p i \<noteq> j" using i ij by simp_all
      have tq: "tr i j (p i) = p i" using q' by (simp add: tr_def)
      have ki: "k \<noteq> i" using pl [OF k(1)] k(3) by simp
      have iq: "\<not> before (v i) (v (p i))" using P2 [OF k(4) i] ij by simp
      have LL: "Less hm' k (p i) = before (v (tr i j k)) (v (p i))"
        using L' [OF k(2) q'(1)] tq by simp
      show ?thesis
      proof (cases "k = j")
        case True
        then have "tr i j k = i" using ij by (simp add: tr_def)
        then show ?thesis using LL iq by simp
      next
        case kj: False
        then have tk: "tr i j k = k" using ki by (simp add: tr_def)
        have "\<not> before (v k) (v i)" using P2 [OF k(1,2) kj] k(3) by simp
        then have "\<not> before (v k) (v (p i))" using iq not_before_trans by blast
        then show ?thesis using LL tk by simp
      qed
    qed
    have len: "Len hm' = Len hm" by (simp add: hm'_def Swap_Len)
    have "heap_ordered (heap_up hm' i) (Len hm')"
      unfolding hm'_def i_def
    proof (rule step.IH)
      show "0 < j" by (rule j)
      show "Less hm j ((j - 1) div 2)" using True by simp
      show "(j - 1) div 2 < Len (Swap hm ((j - 1) div 2) j)"
        using i by (simp add: Swap_Len i_def)
      show "\<forall>k. 0 < k \<and> k < Len (Swap hm ((j - 1) div 2) j) \<and> k \<noteq> (j - 1) div 2 \<longrightarrow>
          \<not> Less (Swap hm ((j - 1) div 2) j) k ((k - 1) div 2)"
        using A by (simp add: Swap_Len i_def hm'_def p_def)
      show "\<forall>k. 0 < k \<and> k < Len (Swap hm ((j - 1) div 2) j) \<and> (k - 1) div 2 = (j - 1) div 2 \<and> 0 < (j - 1) div 2 \<longrightarrow>
          \<not> Less (Swap hm ((j - 1) div 2) j) k (((j - 1) div 2 - 1) div 2)"
        using B by (simp add: Swap_Len i_def hm'_def p_def)
    qed
    then show ?thesis using True by (simp add: heap_up_step Swap_Len hm'_def i_def)
  qed
qed

lemma dchild_facts:
  assumes "2 * i + 1 < n"
  shows "dchild hm i n < n" "(dchild hm i n - 1) div 2 = i" "i < dchild hm i n" "0 < dchild hm i n"
    "dchild hm i n \<noteq> i"
  using assms by (auto simp: dchild_def)

lemma dchild_min:
  assumes "0 < k" "k < n" "(k - 1) div 2 = i" "k \<noteq> dchild hm i n"
  shows "\<not> Less hm k (dchild hm i n)"
proof -
  have k: "k = 2 * i + 1 \<or> k = 2 * i + 2" using assms(1,3) parent_eq by blast
  show ?thesis
  proof (cases "2 * i + 2 < n \<and> Less hm (2 * i + 2) (2 * i + 1)")
    case True
    then have c: "dchild hm i n = 2 * i + 2" by (simp add: dchild_def)
    then have "k = 2 * i + 1" using k assms(4) by auto
    then show ?thesis using True c before_asym by (auto simp: Less_before)
  next
    case False
    then have c: "dchild hm i n = 2 * i + 1" by (simp add: dchild_def)
    then have "k = 2 * i + 2" using k assms(4) by auto
    then show ?thesis using False c assms(2) by auto
  qed
qed

lemma heap_down_loop_ordered:
  assumes "n \<le> Len hm"
    and "\<forall>k. 0 < k \<and> k < n \<and> (k - 1) div 2 \<noteq> i \<longrightarrow> \<not> Less hm k ((k - 1) div 2)"
    and "\<forall>k. 0 < k \<and> k < n \<and> (k - 1) div 2 = i \<and> 0 < i \<longrightarrow> \<not> Less hm k ((i - 1) div 2)"
  shows "heap_ordered (fst (heap_down_loop hm i n)) n"
  using assms
proof (induction hm i n rule: heap_down_loop_induct)
  case (step hm i n)
  define c where "c = dchild hm i n"
  define v where "v a = snd hm (fst hm ! a)" for a
  define p where "p k = (k - 1) div 2" for k :: nat
  have pl: "\<And>k. 0 < k \<Longrightarrow> p k < k" unfolding p_def by (rule parent_less)
  have L: "\<And>a b. Less hm a b = before (v a) (v b)"
    by (simp add: Less_before v_def)
  have P1: "\<And>k. 0 < k \<Longrightarrow> k < n \<Longrightarrow> p k \<noteq> i \<Longrightarrow> \<not> before (v k) (v (p k))"
    using step.prems(2) by (simp add: L p_def)
  have P2: "\<And>k. 0 < k \<Longrightarrow> k < n \<Longrightarrow> p k = i \<Longrightarrow> 0 < i \<Longrightarrow> \<not> before (v k) (v (p i))"
    using step.prems(3) by (simp add: L p_def)
  have cmin: "\<And>k. 0 < k \<Longrightarrow> k < n \<Longrightarrow> p k = i \<Longrightarrow> k \<noteq> c \<Longrightarrow> \<not> before (v k) (v c)"
    using dchild_min [of _ n i hm] by (simp add: L p_def c_def)
  show ?case
  proof (cases "2 * i + 1 < n \<and> Less hm c i")
    case False
    then have e: "heap_down_loop hm i n = (hm, i)"
      by (auto simp: heap_down_loop_stop c_def)
    have "\<not> Less hm k ((k - 1) div 2)" if k: "0 < k" "k < n" for k
    proof (cases "p k = i")
      case pk: False
      then show ?thesis using P1 [OF k] by (simp add: L p_def)
    next
      case pk: True
      then have "k = 2 * i + 1 \<or> k = 2 * i + 2" using k(1) parent_eq by (simp add: p_def)
      then have "2 * i + 1 < n" using k(2) by auto
      then have nc: "\<not> before (v c) (v i)" using False by (simp add: L)
      have "\<not> before (v k) (v i)"
      proof (cases "k = c")
        case True
        then show ?thesis using nc by simp
      next
        case False
        then show ?thesis using cmin [OF k pk] nc not_before_trans by blast
      qed
      then show ?thesis using pk by (simp add: L p_def)
    qed
    then show ?thesis by (simp add: e heap_ordered_def)
  next
    case True
    define hm' where "hm' = Swap hm i c"
    have cf: "c < n" "p c = i" "i < c" "0 < c" "c \<noteq> i"
      using dchild_facts [of i n hm] True by (simp_all add: c_def p_def)
    have cl: "c < Len hm" and il: "i < Len hm" using cf step.prems(1) by simp_all
    have bci: "before (v c) (v i)" using True by (simp add: L)
    have L': "\<And>a b. a < Len hm \<Longrightarrow> b < Len hm \<Longrightarrow> Less hm' a b = before (v (tr i c a)) (v (tr i c b))"
      unfolding hm'_def using Less_Swap [OF il cl] by (simp add: L)
    have A: "\<not> Less hm' k (p k)" if k: "0 < k" "k < n" "p k \<noteq> c" for k
    proof -
      have kl: "k < Len hm" "p k < Len hm" "p k \<noteq> k"
        using k pl [of k] step.prems(1) by simp_all
      have LL: "Less hm' k (p k) = before (v (tr i c k)) (v (tr i c (p k)))"
        using L' [OF kl(1,2)] .
      consider (kc) "k = c" | (ki) "k = i" | (o) "k \<noteq> c" "k \<noteq> i" by blast
      then show ?thesis
      proof cases
        case kc
        then have "tr i c k = i" "tr i c (p k) = c" using cf by (simp_all add: tr_def)
        then show ?thesis using LL bci before_asym by simp
      next
        case ki
        have q: "p i < i" using k(1) ki pl by simp
        then have "tr i c k = c" "tr i c (p k) = p i" using ki cf by (simp_all add: tr_def)
        then show ?thesis using LL P2 [OF cf(4,1,2)] k(1) ki by simp
      next
        case o
        then have tk: "tr i c k = k" by (simp add: tr_def)
        show ?thesis
        proof (cases "p k = i")
          case True
          then have "tr i c (p k) = c" by (simp add: tr_def)
          then show ?thesis using LL tk cmin [OF k(1,2) True o(1)] by simp
        next
          case False
          then have "tr i c (p k) = p k" using k(3) by (simp add: tr_def)
          then show ?thesis using LL tk P1 [OF k(1,2) False] by simp
        qed
      qed
    qed
    have B: "\<not> Less hm' k (p c)" if k: "0 < k" "k < n" "p k = c" for k
    proof -
      have kc: "c < k" using pl [OF k(1)] k(3) by simp
      then have tk: "tr i c k = k" using cf by (simp add: tr_def)
      have ti: "tr i c (p c) = c" using cf by (simp add: tr_def)
      have kl: "k < Len hm" using k step.prems(1) by simp
      have "Less hm' k (p c) = before (v k) (v c)"
        using L' [OF kl il] tk ti cf by simp
      moreover have "\<not> before (v k) (v c)" using P1 [OF k(1,2)] k(3) cf by simp
      ultimately show ?thesis by simp
    qed
    have "heap_ordered (fst (heap_down_loop (Swap hm i (dchild hm i n)) (dchild hm i n) n)) n"
    proof (rule step.IH)
      show "2 * i + 1 < n" using True by simp
      show "Less hm (dchild hm i n) i" using True by (simp add: c_def)
      show "n \<le> Len (Swap hm i (dchild hm i n))" using step.prems(1) by (simp add: Swap_Len)
      show "\<forall>k. 0 < k \<and> k < n \<and> (k - 1) div 2 \<noteq> dchild hm i n \<longrightarrow>
          \<not> Less (Swap hm i (dchild hm i n)) k ((k - 1) div 2)"
        using A by (simp add: hm'_def c_def p_def)
      show "\<forall>k. 0 < k \<and> k < n \<and> (k - 1) div 2 = dchild hm i n \<and> 0 < dchild hm i n \<longrightarrow>
          \<not> Less (Swap hm i (dchild hm i n)) k ((dchild hm i n - 1) div 2)"
        using B by (simp add: hm'_def c_def p_def)
    qed
    then show ?thesis using True by (simp add: heap_down_loop_step c_def)
  qed
qed

lemma heap_up_frame: "(snd (heap_up hm j) a)\<lparr>index := x\<rparr> = (snd hm a)\<lparr>index := x\<rparr>"
proof (induction hm j rule: heap_up_induct)
  case (step hm j)
  show ?case
  proof (cases "0 < j \<and> Less hm j ((j - 1) div 2)")
    case True
    then show ?thesis using step by (simp add: heap_up_step Swap_frame)
  next
    case False
    then show ?thesis by (simp add: heap_up_stop)
  qed
qed

lemma heap_up_set: "j < Len hm \<Longrightarrow> set (fst (heap_up hm j)) = set (fst hm)"
proof (induction hm j rule: heap_up_induct)
  case (step hm j)
  show ?case
  proof (cases "0 < j \<and> Less hm j ((j - 1) div 2)")
    case True
    have i: "(j - 1) div 2 < Len hm" using True step.prems parent_less [of j] by simp
    show ?thesis using True step i by (simp add: heap_up_step Swap_Len Swap_set)
  next
    case False
    then show ?thesis by (simp add: heap_up_stop)
  qed
qed

lemma heap_up_idx_ok: "idx_ok hm \<Longrightarrow> j < Len hm \<Longrightarrow> idx_ok (heap_up hm j)"
proof (induction hm j rule: heap_up_induct)
  case (step hm j)
  show ?case
  proof (cases "0 < j \<and> Less hm j ((j - 1) div 2)")
    case True
    have i: "(j - 1) div 2 < Len hm" using True step.prems parent_less [of j] by simp
    show ?thesis using True step i by (simp add: heap_up_step Swap_Len Swap_idx_ok)
  next
    case False
    then show ?thesis using step.prems by (simp add: heap_up_stop)
  qed
qed

lemma heap_down_loop_Len: "Len (fst (heap_down_loop hm i n)) = Len hm"
proof (induction hm i n rule: heap_down_loop_induct)
  case (step hm i n)
  show ?case
  proof (cases "2 * i + 1 < n \<and> Less hm (dchild hm i n) i")
    case True
    then show ?thesis using step by (simp add: heap_down_loop_step Swap_Len)
  next
    case False
    then show ?thesis by (auto simp: heap_down_loop_stop)
  qed
qed

lemma heap_down_loop_frame:
  "(snd (fst (heap_down_loop hm i n)) a)\<lparr>index := x\<rparr> = (snd hm a)\<lparr>index := x\<rparr>"
proof (induction hm i n rule: heap_down_loop_induct)
  case (step hm i n)
  show ?case
  proof (cases "2 * i + 1 < n \<and> Less hm (dchild hm i n) i")
    case True
    then show ?thesis using step by (simp add: heap_down_loop_step Swap_frame)
  next
    case False
    then show ?thesis by (auto simp: heap_down_loop_stop)
  qed
qed

lemma heap_down_loop_set:
  "n \<le> Len hm \<Longrightarrow> set (fst (fst (heap_down_loop hm i n))) = set (fst hm)"
proof (induction hm i n rule: heap_down_loop_induct)
  case (step hm i n)
  show ?case
  proof (cases "2 * i + 1 < n \<and> Less hm (dchild hm i n) i")
    case True
    have c: "dchild hm i n < Len hm" "i < Len hm"
      using True step.prems dchild_facts [of i n hm] by simp_all
    show ?thesis using True step c by (simp add: heap_down_loop_step Swap_Len Swap_set)
  next
    case False
    then show ?thesis by (auto simp: heap_down_loop_stop)
  qed
qed

lemma heap_down_loop_idx_ok:
  "idx_ok hm \<Longrightarrow> n \<le> Len hm \<Longrightarrow> idx_ok (fst (heap_down_loop hm i n))"
proof (induction hm i n rule: heap_down_loop_induct)
  case (step hm i n)
  show ?case
  proof (cases "2 * i + 1 < n \<and> Less hm (dchild hm i n) i")
    case True
    have c: "dchild hm i n < Len hm" "i < Len hm"
      using True step.prems dchild_facts [of i n hm] by simp_all
    show ?thesis using True step c by (simp add: heap_down_loop_step Swap_Len Swap_idx_ok)
  next
    case False
    then show ?thesis using step.prems by (auto simp: heap_down_loop_stop)
  qed
qed

lemma heap_down_loop_above:
  "n \<le> Len hm \<Longrightarrow> n \<le> k \<Longrightarrow> k < Len hm \<Longrightarrow> fst (fst (heap_down_loop hm i n)) ! k = fst hm ! k"
proof (induction hm i n rule: heap_down_loop_induct)
  case (step hm i n)
  show ?case
  proof (cases "2 * i + 1 < n \<and> Less hm (dchild hm i n) i")
    case True
    have c: "dchild hm i n < Len hm" "i < Len hm" "dchild hm i n < n" "i < n"
      using True step.prems dchild_facts [of i n hm] by simp_all
    have "fst (Swap hm i (dchild hm i n)) ! k = fst hm ! k"
      using c step.prems by (simp add: Swap_nth Len_def tr_def)
    then show ?thesis using True step c by (simp add: heap_down_loop_step Swap_Len)
  next
    case False
    then show ?thesis by (auto simp: heap_down_loop_stop)
  qed
qed

lemma heap_ordered_root:
  assumes "heap_ordered hm n" "k < n"
  shows "\<not> Less hm k 0"
  using assms(2)
proof (induction k rule: less_induct)
  case (less k)
  show ?case
  proof (cases "k = 0")
    case True
    then show ?thesis by (simp add: Less_before before_def)
  next
    case False
    then have k: "0 < k" by simp
    have p: "(k - 1) div 2 < k" using k by (rule parent_less)
    have "\<not> Less hm k ((k - 1) div 2)" using assms(1) k less.prems by (simp add: heap_ordered_def)
    moreover have "\<not> Less hm ((k - 1) div 2) 0" using less.IH [OF p] p less.prems by simp
    ultimately show ?thesis using not_before_trans by (auto simp: Less_before)
  qed
qed

lemma idx_okD:
  assumes "idx_ok hm"
  shows "distinct (fst hm)" "\<And>i. i < length (fst hm) \<Longrightarrow> index (snd hm (fst hm ! i)) = int i"
    "\<And>a. a \<notin> set (fst hm) \<Longrightarrow> index (snd hm a) = - 1"
  using assms by (auto simp: idx_ok_def)

lemma idx_ok_mem_iff:
  assumes "idx_ok hm"
  shows "(a \<in> set (fst hm)) = (index (snd hm a) \<noteq> - 1)"
proof
  assume "a \<in> set (fst hm)"
  then obtain i where "i < length (fst hm)" "fst hm ! i = a" by (auto simp: in_set_conv_nth)
  then have "index (snd hm a) = int i" using idx_okD(2) [OF assms] by auto
  then show "index (snd hm a) \<noteq> - 1" by simp
next
  assume "index (snd hm a) \<noteq> - 1"
  then show "a \<in> set (fst hm)" using idx_okD(3) [OF assms] by auto
qed

lemma idx_ok_at:
  assumes "idx_ok hm" "index (snd hm a) \<noteq> - 1"
  shows "0 \<le> index (snd hm a)" "nat (index (snd hm a)) < length (fst hm)"
    "fst hm ! nat (index (snd hm a)) = a"
proof -
  have "a \<in> set (fst hm)" using assms idx_ok_mem_iff by simp
  then obtain i where i: "i < length (fst hm)" "fst hm ! i = a" by (auto simp: in_set_conv_nth)
  then have "index (snd hm a) = int i" using idx_okD(2) [OF assms(1)] by auto
  then show "0 \<le> index (snd hm a)" "nat (index (snd hm a)) < length (fst hm)"
    "fst hm ! nat (index (snd hm a)) = a" using i by simp_all
qed

subsection \<open>Push\<close>

lemma Push_brh_idx_ok:
  assumes "idx_ok hm" "x \<notin> set (fst hm)"
  shows "idx_ok (Push_brh hm x)"
proof -
  note d = idx_okD [OF assms(1)]
  have "\<And>i. i < length (fst hm) \<Longrightarrow> fst hm ! i \<noteq> x" using assms(2) by (metis nth_mem)
  then show ?thesis
    using d assms(2) by (auto simp: idx_ok_def Push_brh_def Let_def nth_append less_Suc_eq)
qed

lemma Push_brh_Less:
  "a < Len hm \<Longrightarrow> b < Len hm \<Longrightarrow> Less (Push_brh hm x) a b = Less hm a b"
  by (simp add: Less_before before_def Push_brh_def Let_def nth_append Len_def)

lemma heap_Push_inv:
  assumes "heap_inv hm" "x \<notin> set (fst hm)"
  shows "heap_inv (heap_Push hm x)"
proof -
  let ?hm1 = "Push_brh hm x"
  have len: "Len ?hm1 = Suc (Len hm)" by (simp add: Push_brh_def Len_def Let_def)
  have i1: "idx_ok ?hm1" using assms Push_brh_idx_ok by (simp add: heap_inv_def)
  have o: "heap_ordered hm (Len hm)" using assms(1) by (simp add: heap_inv_def)
  have A: "\<forall>k. 0 < k \<and> k < Len ?hm1 \<and> k \<noteq> Len hm \<longrightarrow> \<not> Less ?hm1 k ((k - 1) div 2)"
  proof (intro allI impI)
    fix k assume k: "0 < k \<and> k < Len ?hm1 \<and> k \<noteq> Len hm"
    then have kl: "k < Len hm" using len by simp
    then have pl: "(k - 1) div 2 < Len hm" using parent_less [of k] k by simp
    have "\<not> Less hm k ((k - 1) div 2)" using o k kl by (simp add: heap_ordered_def)
    then show "\<not> Less ?hm1 k ((k - 1) div 2)"
      unfolding Push_brh_Less [OF kl pl] .
  qed
  have B: "\<forall>k. 0 < k \<and> k < Len ?hm1 \<and> (k - 1) div 2 = Len hm \<and> 0 < Len hm
             \<longrightarrow> \<not> Less ?hm1 k ((Len hm - 1) div 2)"
  proof (intro allI impI)
    fix k assume k: "0 < k \<and> k < Len ?hm1 \<and> (k - 1) div 2 = Len hm \<and> 0 < Len hm"
    then have "Len hm < k" using parent_less [of k] by simp
    then have False using k len by simp
    then show "\<not> Less ?hm1 k ((Len hm - 1) div 2)" ..
  qed
  have "heap_ordered (heap_up ?hm1 (Len hm)) (Len ?hm1)"
  proof (rule heap_up_ordered)
    show "Len hm < Len ?hm1" by (simp add: len)
  qed (rule A, rule B)
  moreover have "idx_ok (heap_up ?hm1 (Len hm))"
    using i1 by (rule heap_up_idx_ok) (simp add: len)
  ultimately show ?thesis
    by (simp add: heap_inv_def heap_Push_def Let_def len heap_up_Len)
qed

lemma heap_Push_set: "set (fst (heap_Push hm x)) = insert x (set (fst hm))"
proof -
  have "Len (Push_brh hm x) = Suc (Len hm)" by (simp add: Push_brh_def Len_def Let_def)
  then have "set (fst (heap_Push hm x)) = set (fst (Push_brh hm x))"
    by (simp add: heap_Push_def Let_def heap_up_set)
  then show ?thesis by (simp add: Push_brh_def Let_def)
qed

lemma heap_Push_frame:
  "(snd (heap_Push hm x) a)\<lparr>index := y\<rparr> = (snd hm a)\<lparr>index := y\<rparr>"
  by (simp add: heap_Push_def Let_def heap_up_frame) (simp add: Push_brh_def Let_def)

subsection \<open>Pop\<close>

lemma heap_Pop_Some:
  assumes "heap_inv hm" "0 < Len hm"
  shows "\<exists>hm'. heap_Pop hm = Some (fst hm ! 0, hm') \<and> heap_inv hm'
           \<and> set (fst hm') = set (fst hm) - {fst hm ! 0}
           \<and> index (snd hm' (fst hm ! 0)) = - 1"
proof -
  define n where "n = Len hm - 1"
  define hm1 where "hm1 = Swap hm 0 n"
  define hm2 where "hm2 = fst (heap_down_loop hm1 0 n)"
  have n: "n < Len hm" "0 < Len hm" using assms(2) by (simp_all add: n_def)
  have io: "idx_ok hm" and o: "heap_ordered hm (Len hm)" using assms(1) by (simp_all add: heap_inv_def)
  have len1: "Len hm1 = Len hm" by (simp add: hm1_def Swap_Len)
  have len2: "Len hm2 = Len hm" by (simp add: hm2_def heap_down_loop_Len len1)
  have i1: "idx_ok hm1" unfolding hm1_def using io n by (simp add: Swap_idx_ok)
  have i2: "idx_ok hm2" unfolding hm2_def using i1 n by (simp add: heap_down_loop_idx_ok len1)
  have s2: "set (fst hm2) = set (fst hm)"
    unfolding hm2_def hm1_def using n by (simp add: heap_down_loop_set Swap_Len Swap_set)
  have last1: "fst hm1 ! n = fst hm ! 0"
    unfolding hm1_def using n by (simp add: Swap_nth Len_def tr_def)
  have last2: "fst hm2 ! n = fst hm ! 0"
    unfolding hm2_def using n last1 by (simp add: heap_down_loop_above len1)
  have A: "\<forall>k. 0 < k \<and> k < n \<and> (k - 1) div 2 \<noteq> 0 \<longrightarrow> \<not> Less hm1 k ((k - 1) div 2)"
  proof (intro allI impI)
    fix k assume k: "0 < k \<and> k < n \<and> (k - 1) div 2 \<noteq> 0"
    then have p: "(k - 1) div 2 < k" using parent_less by simp
    have "Less hm1 k ((k - 1) div 2) = Less hm (tr 0 n k) (tr 0 n ((k - 1) div 2))"
      unfolding hm1_def using k p n by (intro Less_Swap) simp_all
    also have "\<dots> = Less hm k ((k - 1) div 2)" using k p by (simp add: tr_def)
    finally show "\<not> Less hm1 k ((k - 1) div 2)"
      using o k n by (simp add: heap_ordered_def)
  qed
  have o2: "heap_ordered hm2 n"
    unfolding hm2_def using n A by (intro heap_down_loop_ordered) (simp_all add: len1)
  have fne: "fst hm2 \<noteq> []" using len2 n by (auto simp: Len_def)
  have lastx: "last (fst hm2) = fst hm ! 0"
    using last2 len2 fne by (simp add: last_conv_nth Len_def n_def)
  define hm3 where "hm3 = snd (Pop_brh hm2)"
  have pop: "Pop_brh hm2 = (fst hm ! 0, hm3)"
    by (simp add: hm3_def Pop_brh_def Let_def lastx)
  have f3: "fst hm3 = butlast (fst hm2)"
    and m3: "snd hm3 = (snd hm2)(fst hm ! 0 := (snd hm2 (fst hm ! 0))\<lparr>index := - 1\<rparr>)"
    by (simp_all add: hm3_def Pop_brh_def Let_def lastx)
  have len3: "Len hm3 = n" by (simp add: Len_def f3 n_def len2 [unfolded Len_def])
  note d2 = idx_okD [OF i2]
  have app: "fst hm2 = butlast (fst hm2) @ [fst hm ! 0]"
    using fne lastx by (metis append_butlast_last_id)
  have nin: "fst hm ! 0 \<notin> set (butlast (fst hm2))"
    using d2(1) app by (metis distinct_append distinct.simps(2) disjoint_iff list.set_intros(1) not_distinct_conv_prefix)
  have s3: "set (fst hm3) = set (fst hm) - {fst hm ! 0}"
  proof -
    have "set (fst hm2) = insert (fst hm ! 0) (set (butlast (fst hm2)))"
      using app by (metis list.simps(15) rotate1.simps(2) set_rotate1)
    then show ?thesis using nin s2 by (auto simp: f3)
  qed
  have l2: "length (fst hm2) = Suc n" using len2 n by (simp add: Len_def n_def)
  have nth3: "\<And>k. k < n \<Longrightarrow> fst hm3 ! k = fst hm2 ! k"
    by (simp add: f3 nth_butlast l2)
  have i3: "idx_ok hm3"
    unfolding idx_ok_def
  proof (intro conjI allI impI)
    show "distinct (fst hm3)" using d2(1) by (simp add: f3 distinct_butlast)
  next
    fix i assume i: "i < length (fst hm3)"
    then have il: "i < n" using len3 by (simp add: Len_def)
    then have "fst hm3 ! i \<in> set (butlast (fst hm2))" using i f3 by (metis nth_mem)
    then have ne: "fst hm3 ! i \<noteq> fst hm ! 0" using nin by auto
    have "index (snd hm2 (fst hm2 ! i)) = int i"
      using d2(2) [of i] il n len2 by (simp add: Len_def)
    then show "index (snd hm3 (fst hm3 ! i)) = int i"
      using ne by (simp add: m3 nth3 [OF il])
  next
    fix a assume a: "a \<notin> set (fst hm3)"
    show "index (snd hm3 a) = - 1"
    proof (cases "a = fst hm ! 0")
      case True
      then show ?thesis by (simp add: m3)
    next
      case False
      then have "a \<notin> set (fst hm2)" using a s3 s2 by simp
      then show ?thesis using d2(3) False by (simp add: m3)
    qed
  qed
  have o3: "heap_ordered hm3 n"
    unfolding heap_ordered_def
  proof (intro allI impI)
    fix k assume k: "0 < k \<and> k < n"
    then have p: "(k - 1) div 2 < n" using parent_less [of k] by simp
    have "Less hm3 k ((k - 1) div 2) = Less hm2 k ((k - 1) div 2)"
      using k p by (simp add: Less_before before_def nth3 m3)
    then show "\<not> Less hm3 k ((k - 1) div 2)" using o2 k by (simp add: heap_ordered_def)
  qed
  have "heap_Pop hm = Some (fst hm ! 0, hm3)"
    using assms(2) pop
    by (simp add: heap_Pop_def Let_def heap_down_def hm2_def hm1_def n_def)
  moreover have "heap_inv hm3" using i3 o3 by (simp add: heap_inv_def len3)
  moreover have "index (snd hm3 (fst hm ! 0)) = - 1" by (simp add: m3)
  ultimately show ?thesis using s3 by blast
qed

lemma heap_Pop_frame:
  assumes "heap_Pop hm = Some (a, hm')"
  shows "(snd hm' b)\<lparr>index := y\<rparr> = (snd hm b)\<lparr>index := y\<rparr>"
proof -
  let ?hm2 = "fst (heap_down_loop (Swap hm 0 (Len hm - 1)) 0 (Len hm - 1))"
  have "hm' = snd (Pop_brh ?hm2)"
    using assms by (auto simp: heap_Pop_def Let_def heap_down_def split: if_splits)
  then have "(snd hm' b)\<lparr>index := y\<rparr> = (snd ?hm2 b)\<lparr>index := y\<rparr>"
    by (simp add: Pop_brh_def Let_def)
  then show ?thesis by (simp add: heap_down_loop_frame Swap_frame)
qed

lemma before_raise:
  "\<not> before x y \<Longrightarrow> priority y \<le> prio \<Longrightarrow> \<not> before x (y\<lparr>priority := prio\<rparr>)"
  by (auto simp: before_def)

lemma heap_Fix_raise:
  assumes "heap_inv (h, m)" "i < length h" "priority (m (h ! i)) \<le> prio"
  shows "\<exists>hm'. heap_Fix (h, m(h ! i := (m (h ! i))\<lparr>priority := prio\<rparr>)) (int i) = Some hm'
           \<and> heap_inv hm' \<and> set (fst hm') = set h
           \<and> hm' = heap_up (h, m(h ! i := (m (h ! i))\<lparr>priority := prio\<rparr>)) i"
proof -
  define m' where "m' = m(h ! i := (m (h ! i))\<lparr>priority := prio\<rparr>)"
  define n where "n = length h"
  define v where "v k = m (h ! k)" for k
  define v' where "v' k = m' (h ! k)" for k
  define p where "p k = (k - 1) div 2" for k :: nat
  have pl: "\<And>k. 0 < k \<Longrightarrow> p k < k" unfolding p_def by (rule parent_less)
  have io: "idx_ok (h, m)" and o: "heap_ordered (h, m) n"
    using assms(1) by (simp_all add: heap_inv_def Len_def n_def)
  have d: "distinct h" using io by (simp add: idx_ok_def)
  have len: "Len (h, m') = n" "Len (h, m) = n" by (simp_all add: Len_def n_def)
  have i: "i < n" using assms(2) by (simp add: n_def)
  have vk: "\<And>k. k < n \<Longrightarrow> k \<noteq> i \<Longrightarrow> v' k = v k"
    using d i by (simp add: v'_def v_def m'_def n_def nth_eq_iff_index_eq)
  have vi: "v' i = (v i)\<lparr>priority := prio\<rparr>" by (simp add: v'_def v_def m'_def)
  have L: "\<And>a b. Less (h, m) a b = before (v a) (v b)" by (simp add: Less_before v_def)
  have L': "\<And>a b. Less (h, m') a b = before (v' a) (v' b)" by (simp add: Less_before v'_def)
  have O: "\<And>k. 0 < k \<Longrightarrow> k < n \<Longrightarrow> \<not> before (v k) (v (p k))"
    using o by (simp add: heap_ordered_def L p_def)
  have io': "idx_ok (h, m')"
    using io by (auto simp: idx_ok_def m'_def)
  have stop: "n \<le> 2 * i + 1 \<or> \<not> Less (h, m') (dchild (h, m') i n) i"
  proof (cases "2 * i + 1 < n")
    case True
    define c where "c = dchild (h, m') i n"
    have cf: "c < n" "p c = i" "0 < c" "c \<noteq> i"
      using dchild_facts [OF True, of "(h, m')"] by (simp_all add: c_def p_def)
    have "\<not> before (v c) (v i)" using O [OF cf(3,1)] cf(2) by simp
    then have "\<not> before (v' c) (v' i)"
      using before_raise assms(3) by (simp add: vk [OF cf(1,4)] vi v_def)
    then show ?thesis by (simp add: L' c_def)
  next
    case False
    then show ?thesis by simp
  qed
  have down: "heap_down (h, m') i n = ((h, m'), False)"
    using heap_down_loop_stop [OF stop] by (simp add: heap_down_def)
  have fx: "heap_Fix (h, m') (int i) = Some (heap_up (h, m') i)"
    using i down by (simp add: heap_Fix_def len Let_def)
  have A: "\<forall>k. 0 < k \<and> k < Len (h, m') \<and> k \<noteq> i \<longrightarrow> \<not> Less (h, m') k ((k - 1) div 2)"
  proof (intro allI impI)
    fix k assume k: "0 < k \<and> k < Len (h, m') \<and> k \<noteq> i"
    then have k': "0 < k" "k < n" "k \<noteq> i" by (simp_all add: len)
    have pk: "p k < n" using pl [OF k'(1)] k'(2) by simp
    have nb: "\<not> before (v k) (v (p k))" using O [OF k'(1,2)] .
    have "\<not> before (v' k) (v' (p k))"
    proof (cases "p k = i")
      case True
      then show ?thesis using nb before_raise assms(3) by (simp add: vk [OF k'(2,3)] vi v_def)
    next
      case False
      then show ?thesis using nb by (simp add: vk [OF k'(2,3)] vk [OF pk False])
    qed
    then show "\<not> Less (h, m') k ((k - 1) div 2)" by (simp add: L' p_def)
  qed
  have B: "\<forall>k. 0 < k \<and> k < Len (h, m') \<and> (k - 1) div 2 = i \<and> 0 < i
             \<longrightarrow> \<not> Less (h, m') k ((i - 1) div 2)"
  proof (intro allI impI)
    fix k assume k: "0 < k \<and> k < Len (h, m') \<and> (k - 1) div 2 = i \<and> 0 < i"
    then have k': "0 < k" "k < n" "p k = i" "0 < i" by (simp_all add: len p_def)
    have ki: "k \<noteq> i" using pl [OF k'(1)] k'(3) by simp
    have q: "p i < n" "p i \<noteq> i" using pl [OF k'(4)] i by simp_all
    have "\<not> before (v k) (v i)" using O [OF k'(1,2)] k'(3) by simp
    moreover have "\<not> before (v i) (v (p i))" using O [OF k'(4) i] .
    ultimately have "\<not> before (v k) (v (p i))" using not_before_trans by blast
    then have "\<not> before (v' k) (v' (p i))" by (simp add: vk [OF k'(2) ki] vk [OF q])
    then show "\<not> Less (h, m') k ((i - 1) div 2)" by (simp add: L' p_def)
  qed
  have "heap_ordered (heap_up (h, m') i) (Len (h, m'))"
  proof (rule heap_up_ordered)
    show "i < Len (h, m')" using i by (simp add: len)
  qed (rule A, rule B)
  moreover have "idx_ok (heap_up (h, m') i)"
    using io' by (rule heap_up_idx_ok) (simp add: len i)
  moreover have "set (fst (heap_up (h, m') i)) = set h"
    using heap_up_set [of i "(h, m')"] i by (simp add: len)
  ultimately show ?thesis
    using fx by (simp add: heap_inv_def heap_up_Len m'_def)
qed

section \<open>What Request does to the state\<close>

lemma frame_fields:
  assumes "r\<lparr>index := y\<rparr> = r'\<lparr>index := y\<rparr>"
  shows "blockPtr r = blockPtr r'" "kmd r = kmd r'" "ctx r = ctx r'" "requests r = requests r'"
    "priority r = priority r'" "insertionOrder r = insertionOrder r'"
proof -
  have "blockPtr (r\<lparr>index := y\<rparr>) = blockPtr (r'\<lparr>index := y\<rparr>)"
    "kmd (r\<lparr>index := y\<rparr>) = kmd (r'\<lparr>index := y\<rparr>)"
    "ctx (r\<lparr>index := y\<rparr>) = ctx (r'\<lparr>index := y\<rparr>)"
    "requests (r\<lparr>index := y\<rparr>) = requests (r'\<lparr>index := y\<rparr>)"
    "priority (r\<lparr>index := y\<rparr>) = priority (r'\<lparr>index := y\<rparr>)"
    "insertionOrder (r\<lparr>index := y\<rparr>) = insertionOrder (r'\<lparr>index := y\<rparr>)"
    using assms by simp_all
  then show "blockPtr r = blockPtr r'" "kmd r = kmd r'" "ctx r = ctx r'" "requests r = requests r'"
    "priority r = priority r'" "insertionOrder r = insertionOrder r'"
    by simp_all
qed

lemma heap_inv_cong:
  assumes "\<And>a. index (m' a) = index (m a)" "\<And>a. priority (m' a) = priority (m a)"
    "\<And>a. insertionOrder (m' a) = insertionOrder (m a)"
  shows "heap_inv (h, m') = heap_inv (h, m)"
  by (simp add: heap_inv_def idx_ok_def heap_ordered_def Less_def Let_def Len_def assms)

lemma Request_loop_None:
  "ptrs s ptr = None
   \<Longrightarrow> Request_loop n s c prio k ptr blk = Some (Request_create (Suc n) s c prio k ptr blk)"
  by (subst Request_loop.simps) simp

lemma Request_loop_attach:
  "ptrs s ptr = Some a \<Longrightarrow> \<not> closed (ctx (mem s a))
   \<Longrightarrow> Request_loop n s c prio k ptr blk
       = Some (Request_attach (Suc n)
           (s\<lparr>mem := (mem s)(a := (mem s a)\<lparr>ctx :=
               (ctx (mem s a))\<lparr>children := children (ctx (mem s a)) @ [c]\<rparr>\<rparr>)\<rparr>) a prio blk)"
  by (subst Request_loop.simps) (simp add: AddContext_def Let_def)

lemma Request_loop_canceled:
  "ptrs s ptr = Some a \<Longrightarrow> closed (ctx (mem s a)) \<Longrightarrow> blockPtr (mem s a) = ptr
   \<Longrightarrow> Request_loop n s c prio k ptr blk
       = Some (Request_create (Suc (Suc n)) (s\<lparr>ptrs := (ptrs s)(ptr := None)\<rparr>) c prio k ptr blk)"
  by (subst Request_loop.simps) (simp add: AddContext_def Let_def Request_loop_None)


lemma heap_up_fields:
  "blockPtr (snd (heap_up hm j) a) = blockPtr (snd hm a)"
  "kmd (snd (heap_up hm j) a) = kmd (snd hm a)"
  "ctx (snd (heap_up hm j) a) = ctx (snd hm a)"
  "requests (snd (heap_up hm j) a) = requests (snd hm a)"
  "priority (snd (heap_up hm j) a) = priority (snd hm a)"
  "insertionOrder (snd (heap_up hm j) a) = insertionOrder (snd hm a)"
  using frame_fields [OF heap_up_frame [where x = 0]] by simp_all

lemma heap_Push_fields:
  "blockPtr (snd (heap_Push hm x) a) = blockPtr (snd hm a)"
  "kmd (snd (heap_Push hm x) a) = kmd (snd hm a)"
  "ctx (snd (heap_Push hm x) a) = ctx (snd hm a)"
  "requests (snd (heap_Push hm x) a) = requests (snd hm a)"
  "priority (snd (heap_Push hm x) a) = priority (snd hm a)"
  "insertionOrder (snd (heap_Push hm x) a) = insertionOrder (snd hm a)"
  using frame_fields [OF heap_Push_frame [where y = 0]] by simp_all

lemma heap_Pop_fields:
  assumes "heap_Pop hm = Some (x, hm')"
  shows "blockPtr (snd hm' a) = blockPtr (snd hm a)"
  "kmd (snd hm' a) = kmd (snd hm a)"
  "ctx (snd hm' a) = ctx (snd hm a)"
  "requests (snd hm' a) = requests (snd hm a)"
  "priority (snd hm' a) = priority (snd hm a)"
  "insertionOrder (snd hm' a) = insertionOrder (snd hm a)"
  using frame_fields [OF heap_Pop_frame [OF assms, where y = 0]] by simp_all

text \<open>The state in which the request has been appended to the retrieval at \<open>a\<close>.\<close>

lemma Request_attach_plain:
  assumes "index (mem s a) = - 1 \<or> prio \<le> priority (mem s a)"
  shows "Request_attach n s a prio blk = Return (n, nchans s,
           s\<lparr>chans := (chans s)(nchans s := []), nchans := Suc (nchans s),
             mem := (mem s)(a := (mem s a)\<lparr>requests := requests (mem s a)
                       @ [\<lparr>block = blk, doneCh = nchans s\<rparr>]\<rparr>)\<rparr>)"
  using assms by (auto simp: Request_attach_def Let_def)

lemma Request_attach_raise:
  assumes "heap_inv (heap s, mem s)" "index (mem s a) \<noteq> - 1" "priority (mem s a) < prio"
  shows "\<exists>hm'. Request_attach n s a prio blk = Return (n, nchans s,
           s\<lparr>chans := (chans s)(nchans s := []), nchans := Suc (nchans s),
             heap := fst hm', mem := snd hm'\<rparr>)
         \<and> heap_inv hm' \<and> set (fst hm') = set (heap s) \<and> length (fst hm') = length (heap s)
         \<and> (\<forall>b. blockPtr (snd hm' b) = blockPtr (mem s b)
               \<and> kmd (snd hm' b) = kmd (mem s b)
               \<and> ctx (snd hm' b) = ctx (mem s b)
               \<and> insertionOrder (snd hm' b) = insertionOrder (mem s b)
               \<and> priority (snd hm' b) = (if b = a then prio else priority (mem s b))
               \<and> requests (snd hm' b) = (if b = a then requests (mem s a)
                       @ [\<lparr>block = blk, doneCh = nchans s\<rparr>] else requests (mem s b)))"
proof -
  define m2 where "m2 = (mem s)(a := (mem s a)\<lparr>requests := requests (mem s a)
                       @ [\<lparr>block = blk, doneCh = nchans s\<rparr>]\<rparr>)"
  define i where "i = nat (index (mem s a))"
  have io: "idx_ok (heap s, mem s)" using assms(1) by (simp add: heap_inv_def)
  have at: "0 \<le> index (mem s a)" "i < length (heap s)" "heap s ! i = a"
    using idx_ok_at [OF io] assms(2) by (simp_all add: i_def)
  have inv2: "heap_inv (heap s, m2)"
    using assms(1) by (subst heap_inv_cong [of _ "mem s"]) (simp_all add: m2_def)
  have pr: "priority (m2 (heap s ! i)) \<le> prio" using assms(3) at by (simp add: m2_def)
  from heap_Fix_raise [OF inv2 at(2) pr, unfolded at(3)]
  obtain hm' where fx: "heap_Fix (heap s, m2(a := (m2 a)\<lparr>priority := prio\<rparr>)) (int i) = Some hm'"
    and inv': "heap_inv hm'" and st: "set (fst hm') = set (heap s)"
    and up: "hm' = heap_up (heap s, m2(a := (m2 a)\<lparr>priority := prio\<rparr>)) i"
    by blast
  have ii: "int i = index (mem s a)" using at(1) by (simp add: i_def)
  have idx2: "index (m2 a) = index (mem s a)" by (simp add: m2_def)
  have ret: "Request_attach n s a prio blk = Return (n, nchans s,
           s\<lparr>chans := (chans s)(nchans s := []), nchans := Suc (nchans s),
             heap := fst hm', mem := snd hm'\<rparr>)"
  proof -
    have fx': "heap_Fix (heap s, (mem s)(a := (mem s a)\<lparr>requests := requests (mem s a)
                       @ [\<lparr>block = blk, doneCh = nchans s\<rparr>], priority := prio\<rparr>))
                 (index (mem s a)) = Some hm'"
      using fx by (simp add: m2_def ii)
    show ?thesis
      using assms(2,3) by (simp add: Request_attach_def Let_def fx')
  qed
  have len: "length (fst hm') = length (heap s)"
    using heap_up_Len [of "(heap s, m2(a := (m2 a)\<lparr>priority := prio\<rparr>))" i]
    by (simp add: up Len_def)
  have fr: "\<forall>b. blockPtr (snd hm' b) = blockPtr (mem s b)
               \<and> kmd (snd hm' b) = kmd (mem s b)
               \<and> ctx (snd hm' b) = ctx (mem s b)
               \<and> insertionOrder (snd hm' b) = insertionOrder (mem s b)
               \<and> priority (snd hm' b) = (if b = a then prio else priority (mem s b))
               \<and> requests (snd hm' b) = (if b = a then requests (mem s a)
                       @ [\<lparr>block = blk, doneCh = nchans s\<rparr>] else requests (mem s b))"
    by (simp add: up heap_up_fields m2_def)
  show ?thesis using ret inv' st len fr by blast
qed

lemma Request_attach_post:
  assumes "heap_inv (heap s, mem s)"
  shows "\<exists>s'. Request_attach n s a prio blk = Return (n, nchans s, s')
     \<and> heap_inv (heap s', mem s') \<and> set (heap s') = set (heap s)
     \<and> length (heap s') = length (heap s)
     \<and> ptrs s' = ptrs s \<and> nalloc s' = nalloc s \<and> notifying s' = notifying s
     \<and> draining s' = draining s \<and> matching s' = matching s
     \<and> insertionCount s' = insertionCount s \<and> doneCh_closed s' = doneCh_closed s
     \<and> workerQueue s' = workerQueue s \<and> nchans s' = Suc (nchans s)
     \<and> chans s' = (chans s)(nchans s := []) \<and> numWorkers s' = numWorkers s
     \<and> (\<forall>b. blockPtr (mem s' b) = blockPtr (mem s b)
           \<and> kmd (mem s' b) = kmd (mem s b)
           \<and> ctx (mem s' b) = ctx (mem s b)
           \<and> insertionOrder (mem s' b) = insertionOrder (mem s b)
           \<and> priority (mem s' b)
               = (if b = a \<and> index (mem s a) \<noteq> - 1 \<and> priority (mem s a) < prio then prio
                  else priority (mem s b))
           \<and> requests (mem s' b)
               = (if b = a then requests (mem s a) @ [\<lparr>block = blk, doneCh = nchans s\<rparr>]
                  else requests (mem s b)))"
proof (cases "index (mem s a) \<noteq> - 1 \<and> priority (mem s a) < prio")
  case True
  from Request_attach_raise [OF assms, of a prio n blk] True
  obtain hm' where r: "Request_attach n s a prio blk = Return (n, nchans s,
           s\<lparr>chans := (chans s)(nchans s := []), nchans := Suc (nchans s),
             heap := fst hm', mem := snd hm'\<rparr>)"
    and h: "heap_inv hm'" "set (fst hm') = set (heap s)" "length (fst hm') = length (heap s)"
    and f: "\<forall>b. blockPtr (snd hm' b) = blockPtr (mem s b)
               \<and> kmd (snd hm' b) = kmd (mem s b)
               \<and> ctx (snd hm' b) = ctx (mem s b)
               \<and> insertionOrder (snd hm' b) = insertionOrder (mem s b)
               \<and> priority (snd hm' b) = (if b = a then prio else priority (mem s b))
               \<and> requests (snd hm' b) = (if b = a then requests (mem s a)
                       @ [\<lparr>block = blk, doneCh = nchans s\<rparr>] else requests (mem s b))"
    by blast
  have e: "(fst hm', snd hm') = hm'" by simp
  show ?thesis
    unfolding r using h f True by (simp add: e)
next
  case False
  then have c: "index (mem s a) = - 1 \<or> prio \<le> priority (mem s a)" by auto
  have hi: "heap_inv (heap s, (mem s)(a := (mem s a)\<lparr>requests := requests (mem s a)
                       @ [\<lparr>block = blk, doneCh = nchans s\<rparr>]\<rparr>))"
    using assms by (subst heap_inv_cong [of _ "mem s"]) simp_all
  show ?thesis
    unfolding Request_attach_plain [OF c] using hi False by simp
qed

lemma heap_inv_alloc:
  assumes "heap_inv (h, m)" "a \<notin> set h" "index r = - 1"
  shows "heap_inv (h, m(a := r))"
proof -
  have n: "\<And>k. k < length h \<Longrightarrow> h ! k \<noteq> a" using assms(2) by (metis nth_mem)
  have io: "idx_ok (h, m(a := r))"
    using assms n by (auto simp: heap_inv_def idx_ok_def)
  have "\<And>k. 0 < k \<Longrightarrow> k < length h \<Longrightarrow> Less (h, m(a := r)) k ((k - 1) div 2) = Less (h, m) k ((k - 1) div 2)"
  proof -
    fix k :: nat assume k: "0 < k" "k < length h"
    then have "(k - 1) div 2 < length h" using parent_less [of k] by simp
    then show "Less (h, m(a := r)) k ((k - 1) div 2) = Less (h, m) k ((k - 1) div 2)"
      using n k by (simp add: Less_def Let_def)
  qed
  then have "heap_ordered (h, m(a := r)) (length h)"
    using assms(1) by (simp add: heap_inv_def heap_ordered_def Len_def)
  then show ?thesis using io by (simp add: heap_inv_def Len_def)
qed

lemma heap_Push_length: "length (fst (heap_Push hm x)) = Suc (length (fst hm))"
  using heap_up_Len [of "Push_brh hm x" "Len (Push_brh hm x) - 1"]
  by (simp add: heap_Push_def Let_def Len_def Push_brh_def)

lemma Request_create_inv:
  assumes "brq_inv s C"
  shows "\<exists>s'. Request_create n s c prio k ptr blk = Return (n, nchans s, s')
     \<and> brq_inv s' C \<and> ptrs s' = (ptrs s)(ptr \<mapsto> nalloc s) \<and> nalloc s' = Suc (nalloc s)
     \<and> insertionCount s' = insertionCount s + 1
     \<and> insertionOrder (mem s' (nalloc s)) = insertionCount s
     \<and> priority (mem s' (nalloc s)) = prio
     \<and> kmd (mem s' (nalloc s)) = k
     \<and> requests (mem s' (nalloc s)) = [\<lparr>block = blk, doneCh = nchans s\<rparr>]
     \<and> set (heap s') = insert (nalloc s) (set (heap s))
     \<and> doneCh_closed s' = doneCh_closed s
     \<and> chans s' = (chans s)(nchans s := []) \<and> nchans s' = Suc (nchans s)
     \<and> ctx (mem s' (nalloc s)) = NewCoalescingContext c
     \<and> (\<forall>b. b \<noteq> nalloc s \<longrightarrow> blockPtr (mem s' b) = blockPtr (mem s b)
           \<and> kmd (mem s' b) = kmd (mem s b)
           \<and> ctx (mem s' b) = ctx (mem s b)
           \<and> insertionOrder (mem s' b) = insertionOrder (mem s b)
           \<and> priority (mem s' b) = priority (mem s b)
           \<and> requests (mem s' b) = requests (mem s b))"
proof -
  define a where "a = nalloc s"
  define br where "br = \<lparr>blockPtr = ptr, kmd = k, ctx = NewCoalescingContext c, requests = [],
                index = - 1, priority = prio, insertionOrder = insertionCount s\<rparr>"
  define s3 where "s3 = s\<lparr>mem := (mem s)(a := br), nalloc := Suc a,
                          insertionCount := insertionCount s + 1, ptrs := (ptrs s)(ptr \<mapsto> a)\<rparr>"
  define hm where "hm = heap_Push (heap s, (mem s)(a := br)) a"
  define s4 where "s4 = s3\<lparr>heap := fst hm, mem := snd hm\<rparr>"
  have inv: "heap_inv (heap s, mem s)" "set (heap s) = {a. a < nalloc s} - C"
    "C \<subseteq> {a. a < nalloc s}"
    "\<And>p b. ptrs s p = Some b \<Longrightarrow> b < nalloc s \<and> blockPtr (mem s b) = p"
    "length (heap s) \<le> notifying s + draining s + length (matching s)"
    using assms by (auto simp: brq_inv_def)
  have nin: "a \<notin> set (heap s)" using inv(2) by (simp add: a_def)
  have h1: "heap_inv (heap s, (mem s)(a := br))"
    using inv(1) nin by (rule heap_inv_alloc) (simp add: br_def)
  have h2: "heap_inv hm" unfolding hm_def using h1 nin by (intro heap_Push_inv) simp_all
  have set2: "set (fst hm) = insert a (set (heap s))" by (simp add: hm_def heap_Push_set)
  have len2: "length (fst hm) = Suc (length (heap s))" by (simp add: hm_def heap_Push_length)
  have f2: "\<And>b. blockPtr (snd hm b) = blockPtr (((mem s)(a := br)) b)"
    "\<And>b. kmd (snd hm b) = kmd (((mem s)(a := br)) b)"
    "\<And>b. ctx (snd hm b) = ctx (((mem s)(a := br)) b)"
    "\<And>b. requests (snd hm b) = requests (((mem s)(a := br)) b)"
    "\<And>b. priority (snd hm b) = priority (((mem s)(a := br)) b)"
    "\<And>b. insertionOrder (snd hm b) = insertionOrder (((mem s)(a := br)) b)"
    by (simp_all add: hm_def heap_Push_fields)
  have h4: "heap_inv (heap s4, mem s4)" using h2 by (simp add: s4_def)
  from Request_attach_post [OF h4, of n a prio blk]
  obtain s5 where r: "Request_attach n s4 a prio blk = Return (n, nchans s4, s5)"
    and p: "heap_inv (heap s5, mem s5)" "set (heap s5) = set (heap s4)"
      "length (heap s5) = length (heap s4)"
      "ptrs s5 = ptrs s4" "nalloc s5 = nalloc s4" "notifying s5 = notifying s4"
      "draining s5 = draining s4" "matching s5 = matching s4"
      "insertionCount s5 = insertionCount s4" "doneCh_closed s5 = doneCh_closed s4"
      "chans s5 = (chans s4)(nchans s4 := [])" "nchans s5 = Suc (nchans s4)"
    and f: "\<And>b. blockPtr (mem s5 b) = blockPtr (mem s4 b)"
      "\<And>b. kmd (mem s5 b) = kmd (mem s4 b)"
      "\<And>b. ctx (mem s5 b) = ctx (mem s4 b)"
      "\<And>b. insertionOrder (mem s5 b) = insertionOrder (mem s4 b)"
      "\<And>b. priority (mem s5 b)
               = (if b = a \<and> index (mem s4 a) \<noteq> - 1 \<and> priority (mem s4 a) < prio then prio
                  else priority (mem s4 b))"
      "\<And>b. requests (mem s5 b)
               = (if b = a then requests (mem s4 a) @ [\<lparr>block = blk, doneCh = nchans s4\<rparr>]
                  else requests (mem s4 b))"
    by blast
  have pa: "priority (mem s4 a) = prio" by (simp add: s4_def f2 br_def)
  have ret: "Request_create n s c prio k ptr blk = Return (n, nchans s, notifyWorker s5)"
  proof -
    have "Request_create n s c prio k ptr blk
            = (case Request_attach n s4 a prio blk of
                 Return r \<Rightarrow> Return (fst r, fst (snd r), notifyWorker (snd (snd r)))
               | Panic \<Rightarrow> Panic | Blocks \<Rightarrow> Blocks)"
      by (simp add: Request_create_def Let_def s4_def s3_def hm_def br_def a_def)
    then show ?thesis using r by (simp add: s4_def s3_def)
  qed
  have i5: "brq_inv (notifyWorker s5) C"
    unfolding brq_inv_def
  proof (intro conjI allI impI)
    show "heap_inv (heap (notifyWorker s5), mem (notifyWorker s5))"
      using p(1) by (simp add: notifyWorker_def)
    show "set (heap (notifyWorker s5)) = {a. a < nalloc (notifyWorker s5)} - C"
      using p(2,5) set2 inv(2,3) by (auto simp: notifyWorker_def s4_def s3_def a_def)
    show "C \<subseteq> {a. a < nalloc (notifyWorker s5)}"
      using p(5) inv(3) by (auto simp: notifyWorker_def s4_def s3_def a_def)
    show "length (heap (notifyWorker s5))
            \<le> notifying (notifyWorker s5) + draining (notifyWorker s5) + length (matching (notifyWorker s5))"
      using p(3,6,7,8) len2 inv(5) by (simp add: notifyWorker_def s4_def s3_def)
  next
    fix q b assume "ptrs (notifyWorker s5) q = Some b"
    then have q: "((ptrs s)(ptr \<mapsto> a)) q = Some b"
      using p(4) by (simp add: notifyWorker_def s4_def s3_def)
    show "b < nalloc (notifyWorker s5)"
      using q p(5) inv(4) [of q b] by (auto simp: notifyWorker_def s4_def s3_def a_def split: if_splits)
    show "blockPtr (mem (notifyWorker s5) b) = q"
      using q inv(4) [of q b] 
      by (auto simp: notifyWorker_def f(1) s4_def f2 br_def a_def split: if_splits)
  qed
  have rest: "ptrs (notifyWorker s5) = (ptrs s)(ptr \<mapsto> nalloc s)"
    "nalloc (notifyWorker s5) = Suc (nalloc s)"
    "insertionCount (notifyWorker s5) = insertionCount s + 1"
    "insertionOrder (mem (notifyWorker s5) (nalloc s)) = insertionCount s"
    "priority (mem (notifyWorker s5) (nalloc s)) = prio"
    "kmd (mem (notifyWorker s5) (nalloc s)) = k"
    "requests (mem (notifyWorker s5) (nalloc s)) = [\<lparr>block = blk, doneCh = nchans s\<rparr>]"
    "set (heap (notifyWorker s5)) = insert (nalloc s) (set (heap s))"
    "doneCh_closed (notifyWorker s5) = doneCh_closed s"
    "chans (notifyWorker s5) = (chans s)(nchans s := [])"
    "nchans (notifyWorker s5) = Suc (nchans s)"
    "ctx (mem (notifyWorker s5) (nalloc s)) = NewCoalescingContext c"
    using p set2 pa
    by (simp_all add: notifyWorker_def f s4_def f2 br_def s3_def a_def)
  have others: "\<forall>b. b \<noteq> nalloc s \<longrightarrow> blockPtr (mem (notifyWorker s5) b) = blockPtr (mem s b)
           \<and> kmd (mem (notifyWorker s5) b) = kmd (mem s b)
           \<and> ctx (mem (notifyWorker s5) b) = ctx (mem s b)
           \<and> insertionOrder (mem (notifyWorker s5) b) = insertionOrder (mem s b)
           \<and> priority (mem (notifyWorker s5) b) = priority (mem s b)
           \<and> requests (mem (notifyWorker s5) b) = requests (mem s b)"
    by (simp add: notifyWorker_def f s4_def f2 a_def)
  show ?thesis using ret i5 rest others by blast
qed

section \<open>The invariant holds in every reachable state\<close>

lemma popIfNotEmpty_empty: "heap s = [] \<Longrightarrow> popIfNotEmpty s = Return (None, s)"
  by (simp add: popIfNotEmpty_def Len_def)

lemma popIfNotEmpty_nonempty:
  assumes "heap_inv (heap s, mem s)" "heap s \<noteq> []"
  shows "\<exists>hm'. popIfNotEmpty s = Return (Some (heap s ! 0), s\<lparr>heap := fst hm', mem := snd hm'\<rparr>)
           \<and> heap_Pop (heap s, mem s) = Some (heap s ! 0, hm')
           \<and> heap_inv hm' \<and> set (fst hm') = set (heap s) - {heap s ! 0}
           \<and> index (snd hm' (heap s ! 0)) = - 1"
proof -
  have l: "0 < Len (heap s, mem s)" using assms(2) by (simp add: Len_def)
  from heap_Pop_Some [OF assms(1) l]
  obtain hm' where p: "heap_Pop (heap s, mem s) = Some (heap s ! 0, hm')"
    and h: "heap_inv hm'" "set (fst hm') = set (heap s) - {heap s ! 0}"
      "index (snd hm' (heap s ! 0)) = - 1"
    by auto
  have "popIfNotEmpty s = Return (Some (heap s ! 0), s\<lparr>heap := fst hm', mem := snd hm'\<rparr>)"
    using l p by (simp add: popIfNotEmpty_def)
  then show ?thesis using p h by blast
qed

lemma heap_inv_length:
  assumes "heap_inv hm"
  shows "length (fst hm) = card (set (fst hm))"
  using assms by (simp add: heap_inv_def idx_ok_def distinct_card)

lemma popIfNotEmpty_inv:
  assumes "brq_inv s C" "popIfNotEmpty s = Return (r, s')"
  shows "heap_inv (heap s', mem s')" "set (heap s') = {a. a < nalloc s'} - (C \<union> set_option r)"
    "C \<union> set_option r \<subseteq> {a. a < nalloc s'}"
    "\<forall>p a. ptrs s' p = Some a \<longrightarrow> a < nalloc s' \<and> blockPtr (mem s' a) = p"
    "length (heap s') = length (heap s) - 1"
    "notifying s' = notifying s" "draining s' = draining s" "matching s' = matching s"
proof -
  have inv: "heap_inv (heap s, mem s)" "set (heap s) = {a. a < nalloc s} - C"
    "C \<subseteq> {a. a < nalloc s}"
    "\<And>p b. ptrs s p = Some b \<Longrightarrow> b < nalloc s \<and> blockPtr (mem s b) = p"
    using assms(1) by (auto simp: brq_inv_def)
  have "heap_inv (heap s', mem s') \<and> set (heap s') = {a. a < nalloc s'} - (C \<union> set_option r)
    \<and> C \<union> set_option r \<subseteq> {a. a < nalloc s'}
    \<and> (\<forall>p a. ptrs s' p = Some a \<longrightarrow> a < nalloc s' \<and> blockPtr (mem s' a) = p)
    \<and> length (heap s') = length (heap s) - 1
    \<and> notifying s' = notifying s \<and> draining s' = draining s \<and> matching s' = matching s"
  proof (cases "heap s = []")
    case True
    then have "r = None" "s' = s" using assms(2) by (simp_all add: popIfNotEmpty_empty)
    then show ?thesis using inv True by auto
  next
    case False
    from popIfNotEmpty_nonempty [OF inv(1) False]
    obtain hm' where p: "popIfNotEmpty s = Return (Some (heap s ! 0), s\<lparr>heap := fst hm', mem := snd hm'\<rparr>)"
      and pp: "heap_Pop (heap s, mem s) = Some (heap s ! 0, hm')"
      and h: "heap_inv hm'" "set (fst hm') = set (heap s) - {heap s ! 0}"
      by blast
    have r: "r = Some (heap s ! 0)" and s': "s' = s\<lparr>heap := fst hm', mem := snd hm'\<rparr>"
      using p assms(2) by simp_all
    have top: "heap s ! 0 \<in> set (heap s)" using False by simp
    have bp: "\<And>b. blockPtr (snd hm' b) = blockPtr (mem s b)"
      using heap_Pop_fields(1) [OF pp] by simp
    have c: "card (set (heap s) - {heap s ! 0}) = card (set (heap s)) - 1"
      using top by simp
    have len: "length (fst hm') = length (heap s) - 1"
      using heap_inv_length [OF h(1)] heap_inv_length [OF inv(1)] h(2) c by simp
    show ?thesis
      using h inv top len bp by (auto simp: r s')
  qed
  then show "heap_inv (heap s', mem s')" "set (heap s') = {a. a < nalloc s'} - (C \<union> set_option r)"
    "C \<union> set_option r \<subseteq> {a. a < nalloc s'}"
    "\<forall>p a. ptrs s' p = Some a \<longrightarrow> a < nalloc s' \<and> blockPtr (mem s' a) = p"
    "length (heap s') = length (heap s) - 1"
    "notifying s' = notifying s" "draining s' = draining s" "matching s' = matching s"
    by blast+
qed

lemma brq_inv_deregister: "brq_inv s C \<Longrightarrow> brq_inv (s\<lparr>ptrs := (ptrs s)(p := None)\<rparr>) C"
  by (simp add: brq_inv_def)

lemma brq_inv_ctx:
  assumes "brq_inv s C"
  shows "brq_inv (s\<lparr>mem := (mem s)(a := (mem s a)\<lparr>ctx := cc\<rparr>)\<rparr>) C"
proof -
  have "heap_inv (heap s, (mem s)(a := (mem s a)\<lparr>ctx := cc\<rparr>)) = heap_inv (heap s, mem s)"
    by (rule heap_inv_cong) simp_all
  then show ?thesis using assms by (simp add: brq_inv_def)
qed

lemma Request_locked_cases:
  assumes "\<forall>p a. ptrs s p = Some a \<longrightarrow> blockPtr (mem s a) = p"
  shows "Request_locked s c prio k ptr blk =
     Some (case ptrs s ptr of
             None \<Rightarrow> Request_create 1 s c prio k ptr blk
           | Some a \<Rightarrow>
               if closed (ctx (mem s a))
               then Request_create 2 (s\<lparr>ptrs := (ptrs s)(ptr := None)\<rparr>) c prio k ptr blk
               else Request_attach 1
                      (s\<lparr>mem := (mem s)(a := (mem s a)\<lparr>ctx :=
                          (ctx (mem s a))\<lparr>children := children (ctx (mem s a)) @ [c]\<rparr>\<rparr>)\<rparr>)
                      a prio blk)"
proof (cases "ptrs s ptr")
  case None
  then show ?thesis by (simp add: Request_locked_def Request_loop_None)
next
  case (Some a)
  then have b: "blockPtr (mem s a) = ptr" using assms by simp
  show ?thesis
  proof (cases "closed (ctx (mem s a))")
    case True
    then show ?thesis
      using Request_loop_canceled [OF Some True b, of 0 c prio k blk] Some
      by (simp add: Request_locked_def numeral_2_eq_2)
  next
    case False
    then show ?thesis
      using Request_loop_attach [OF Some False, of 0 c prio k blk] Some
      by (simp add: Request_locked_def)
  qed
qed

lemma Request_locked_inv:
  assumes "brq_inv s C"
  shows "\<exists>m s'. Request_locked s c prio k ptr blk = Some (Return (m, nchans s, s'))
           \<and> 1 \<le> m \<and> m \<le> 2 \<and> brq_inv s' C"
proof -
  have reg: "\<forall>p a. ptrs s p = Some a \<longrightarrow> blockPtr (mem s a) = p"
    using assms by (simp add: brq_inv_def)
  note cs = Request_locked_cases [OF reg, of c prio k ptr blk]
  show ?thesis
  proof (cases "ptrs s ptr")
    case None
    from Request_create_inv [OF assms, of 1 c prio k ptr blk]
    obtain s' where "Request_create 1 s c prio k ptr blk = Return (1, nchans s, s')" "brq_inv s' C"
      by blast
    then show ?thesis using cs None by auto
  next
    case (Some a)
    show ?thesis
    proof (cases "closed (ctx (mem s a))")
      case True
      let ?s1 = "s\<lparr>ptrs := (ptrs s)(ptr := None)\<rparr>"
      have i1: "brq_inv ?s1 C" using assms by (rule brq_inv_deregister)
      from Request_create_inv [OF i1, of 2 c prio k ptr blk]
      obtain s' where "Request_create 2 ?s1 c prio k ptr blk = Return (2, nchans ?s1, s')" "brq_inv s' C"
        by blast
      then show ?thesis using cs Some True by auto
    next
      case False
      let ?s1 = "s\<lparr>mem := (mem s)(a := (mem s a)\<lparr>ctx :=
                          (ctx (mem s a))\<lparr>children := children (ctx (mem s a)) @ [c]\<rparr>\<rparr>)\<rparr>"
      have i1: "brq_inv ?s1 C" using assms by (rule brq_inv_ctx)
      then have h1: "heap_inv (heap ?s1, mem ?s1)" by (simp add: brq_inv_def)
      from Request_attach_post [OF h1, of 1 a prio blk]
      obtain s' where r: "Request_attach 1 ?s1 a prio blk = Return (1, nchans ?s1, s')"
        and p: "heap_inv (heap s', mem s')" "set (heap s') = set (heap ?s1)"
          "length (heap s') = length (heap ?s1)"
          "ptrs s' = ptrs ?s1" "nalloc s' = nalloc ?s1" "notifying s' = notifying ?s1"
          "draining s' = draining ?s1" "matching s' = matching ?s1"
        and f: "\<And>b. blockPtr (mem s' b) = blockPtr (mem ?s1 b)"
        by blast
      have "brq_inv s' C"
        using i1 p f unfolding brq_inv_def by simp
      then show ?thesis using cs Some False r by auto
    qed
  qed
qed

lemma Request_inv:
  assumes "brq_inv s C" "Request s c prio k ptr blk = Some (Return (m, ch, s'))"
  shows "brq_inv s' C"
proof (cases "doneCh_closed s")
  case True
  then have "s' = s\<lparr>chans := (chans s)(nchans s := [Some EOF]), nchans := Suc (nchans s)\<rparr>"
    using assms(2) by (auto simp: Request_def Let_def)
  then show ?thesis using assms(1) by (simp add: brq_inv_def)
next
  case False
  then show ?thesis
    using assms Request_locked_inv [OF assms(1), of c prio k ptr blk]
    by (auto simp: Request_def)
qed

lemma brq_inv_init: "brq_inv (newBlockRetrievalQueue n) {}"
  by (simp add: brq_inv_def newBlockRetrievalQueue_def heap_inv_def idx_ok_def
        heap_ordered_def Len_def)

lemma reachable_inv: "reachable s C \<Longrightarrow> brq_inv s C"
proof (induction rule: reachable.induct)
  case (r_init n)
  show ?case by (rule brq_inv_init)
next
  case (r_request s C c prio k ptr blk m ch s')
  then show ?case using Request_inv by blast
next
  case (r_request_late s C c prio k ptr blk m ch s')
  then show ?case using Request_locked_inv [of s C c prio k ptr blk] by auto
next
  case (r_select_done s C)
  then show ?case by (simp add: brq_inv_def)
next
  case (r_select_worker s C ch q)
  then show ?case by (simp add: brq_inv_def)
next
  case (r_pop_drain s C r s')
  note p = popIfNotEmpty_inv [OF r_pop_drain.IH r_pop_drain.hyps(3)]
  have "length (heap s) \<le> notifying s + draining s + length (matching s)"
    using r_pop_drain.IH by (simp add: brq_inv_def)
  then show ?case
    using p r_pop_drain.hyps(2) unfolding brq_inv_def by simp
next
  case (r_pop_match s C ch r s')
  note p = popIfNotEmpty_inv [OF r_pop_match.IH r_pop_match.hyps(3)]
  have l: "length (heap s) \<le> notifying s + draining s + length (matching s)"
    using r_pop_match.IH by (simp add: brq_inv_def)
  have "length (remove1 ch (matching s)) = length (matching s) - 1" "0 < length (matching s)"
    using r_pop_match.hyps(2) by (auto simp: length_remove1)
  then show ?case
    using p l unfolding brq_inv_def by simp
next
  case (r_finalize_delete s C a)
  then show ?case by (simp add: brq_inv_deregister)
next
  case (r_cancel s C a)
  then show ?case by (simp add: brq_inv_ctx)
next
  case (r_set_block s C t b)
  then show ?case by (simp add: brq_inv_def)
next
  case (r_send s C a req e)
  then show ?case by (simp add: brq_inv_def)
next
  case (r_receive s C ch)
  then show ?case by (simp add: brq_inv_def)
next
  case (r_worker_receive s C ch)
  then show ?case by (simp add: brq_inv_def)
next
  case (r_Shutdown s C evs s')
  then show ?case
    by (auto simp: Shutdown_def close_doneCh_def brq_inv_def split: if_splits)
next
  case (r_WorkOnRequest s C ch s')
  then show ?case
    by (auto simp: WorkOnRequest_def Let_def brq_inv_def split: if_splits)
qed

lemma Request_locked_create:
  assumes "brq_inv s C" "ptrs s ptr = None \<or> (\<exists>a. ptrs s ptr = Some a \<and> closed (ctx (mem s a)))"
  shows "\<exists>m s'. Request_locked s c prio k ptr blk = Some (Return (m, nchans s, s'))
     \<and> (m = 2) = (ptrs s ptr \<noteq> None) \<and> (m = 1) = (ptrs s ptr = None)
     \<and> brq_inv s' C \<and> ptrs s' = (ptrs s)(ptr \<mapsto> nalloc s) \<and> nalloc s' = Suc (nalloc s)
     \<and> insertionCount s' = insertionCount s + 1
     \<and> insertionOrder (mem s' (nalloc s)) = insertionCount s
     \<and> priority (mem s' (nalloc s)) = prio
     \<and> kmd (mem s' (nalloc s)) = k
     \<and> requests (mem s' (nalloc s)) = [\<lparr>block = blk, doneCh = nchans s\<rparr>]
     \<and> set (heap s') = insert (nalloc s) (set (heap s))
     \<and> doneCh_closed s' = doneCh_closed s
     \<and> chans s' = (chans s)(nchans s := []) \<and> nchans s' = Suc (nchans s)
     \<and> ctx (mem s' (nalloc s)) = NewCoalescingContext c
     \<and> (\<forall>b. b \<noteq> nalloc s \<longrightarrow> blockPtr (mem s' b) = blockPtr (mem s b)
           \<and> kmd (mem s' b) = kmd (mem s b)
           \<and> ctx (mem s' b) = ctx (mem s b)
           \<and> insertionOrder (mem s' b) = insertionOrder (mem s b)
           \<and> priority (mem s' b) = priority (mem s b)
           \<and> requests (mem s' b) = requests (mem s b))"
proof -
  have reg: "\<forall>p a. ptrs s p = Some a \<longrightarrow> blockPtr (mem s a) = p"
    using assms(1) by (simp add: brq_inv_def)
  note cs = Request_locked_cases [OF reg, of c prio k ptr blk]
  show ?thesis
  proof (cases "ptrs s ptr")
    case None
    have e: "Request_locked s c prio k ptr blk = Some (Request_create 1 s c prio k ptr blk)"
      using cs None by simp
    show ?thesis
      unfolding e using Request_create_inv [OF assms(1), of 1 c prio k ptr blk] None by auto
  next
    case (Some a)
    then have cl: "closed (ctx (mem s a))" using assms(2) by auto
    let ?s1 = "s\<lparr>ptrs := (ptrs s)(ptr := None)\<rparr>"
    have i1: "brq_inv ?s1 C" using assms(1) by (rule brq_inv_deregister)
    have e: "Request_locked s c prio k ptr blk = Some (Request_create 2 ?s1 c prio k ptr blk)"
      using cs Some cl by simp
    show ?thesis
      unfolding e using Request_create_inv [OF i1, of 2 c prio k ptr blk] Some by auto
  qed
qed

lemma Request_locked_attach:
  assumes "brq_inv s C" "ptrs s ptr = Some a" "\<not> closed (ctx (mem s a))"
  shows "\<exists>s'. Request_locked s c prio k ptr blk = Some (Return (1, nchans s, s'))
     \<and> brq_inv s' C
     \<and> heap_inv (heap s', mem s') \<and> set (heap s') = set (heap s)
     \<and> length (heap s') = length (heap s)
     \<and> ptrs s' = ptrs s \<and> nalloc s' = nalloc s \<and> notifying s' = notifying s
     \<and> draining s' = draining s \<and> matching s' = matching s
     \<and> insertionCount s' = insertionCount s \<and> doneCh_closed s' = doneCh_closed s
     \<and> workerQueue s' = workerQueue s \<and> nchans s' = Suc (nchans s)
     \<and> chans s' = (chans s)(nchans s := []) \<and> numWorkers s' = numWorkers s
     \<and> (\<forall>b. blockPtr (mem s' b) = blockPtr (mem s b)
           \<and> kmd (mem s' b) = kmd (mem s b)
           \<and> closed (ctx (mem s' b)) = closed (ctx (mem s b))
           \<and> insertionOrder (mem s' b) = insertionOrder (mem s b)
           \<and> priority (mem s' b)
               = (if b = a \<and> index (mem s a) \<noteq> - 1 \<and> priority (mem s a) < prio then prio
                  else priority (mem s b))
           \<and> requests (mem s' b)
               = (if b = a then requests (mem s a) @ [\<lparr>block = blk, doneCh = nchans s\<rparr>]
                  else requests (mem s b)))"
proof -
  have reg: "\<forall>p a. ptrs s p = Some a \<longrightarrow> blockPtr (mem s a) = p"
    using assms(1) by (simp add: brq_inv_def)
  let ?s1 = "s\<lparr>mem := (mem s)(a := (mem s a)\<lparr>ctx :=
                          (ctx (mem s a))\<lparr>children := children (ctx (mem s a)) @ [c]\<rparr>\<rparr>)\<rparr>"
  have e: "Request_locked s c prio k ptr blk = Some (Request_attach 1 ?s1 a prio blk)"
    using Request_locked_cases [OF reg, of c prio k ptr blk] assms(2,3) by simp
  have i1: "brq_inv ?s1 C" using assms(1) by (rule brq_inv_ctx)
  then have h1: "heap_inv (heap ?s1, mem ?s1)" by (simp add: brq_inv_def)
  from Request_attach_post [OF h1, of 1 a prio blk]
  obtain s' where r: "Request_attach 1 ?s1 a prio blk = Return (1, nchans ?s1, s')"
    and p: "heap_inv (heap s', mem s')" "set (heap s') = set (heap ?s1)"
      "length (heap s') = length (heap ?s1)"
      "ptrs s' = ptrs ?s1" "nalloc s' = nalloc ?s1" "notifying s' = notifying ?s1"
      "draining s' = draining ?s1" "matching s' = matching ?s1"
      "insertionCount s' = insertionCount ?s1" "doneCh_closed s' = doneCh_closed ?s1"
      "workerQueue s' = workerQueue ?s1" "nchans s' = Suc (nchans ?s1)"
      "chans s' = (chans ?s1)(nchans ?s1 := [])" "numWorkers s' = numWorkers ?s1"
    and f: "\<And>b. blockPtr (mem s' b) = blockPtr (mem ?s1 b)"
      "\<And>b. kmd (mem s' b) = kmd (mem ?s1 b)"
      "\<And>b. ctx (mem s' b) = ctx (mem ?s1 b)"
      "\<And>b. insertionOrder (mem s' b) = insertionOrder (mem ?s1 b)"
      "\<And>b. priority (mem s' b)
               = (if b = a \<and> index (mem ?s1 a) \<noteq> - 1 \<and> priority (mem ?s1 a) < prio then prio
                  else priority (mem ?s1 b))"
      "\<And>b. requests (mem s' b)
               = (if b = a then requests (mem ?s1 a) @ [\<lparr>block = blk, doneCh = nchans ?s1\<rparr>]
                  else requests (mem ?s1 b))"
    by blast
  have inv': "brq_inv s' C"
    using i1 p f(1) unfolding brq_inv_def by simp
  have fr: "\<forall>b. blockPtr (mem s' b) = blockPtr (mem s b)
           \<and> kmd (mem s' b) = kmd (mem s b)
           \<and> closed (ctx (mem s' b)) = closed (ctx (mem s b))
           \<and> insertionOrder (mem s' b) = insertionOrder (mem s b)
           \<and> priority (mem s' b)
               = (if b = a \<and> index (mem s a) \<noteq> - 1 \<and> priority (mem s a) < prio then prio
                  else priority (mem s b))
           \<and> requests (mem s' b)
               = (if b = a then requests (mem s a) @ [\<lparr>block = blk, doneCh = nchans s\<rparr>]
                  else requests (mem s b))"
    by (simp add: f)
  have r': "Request_locked s c prio k ptr blk = Some (Return (1, nchans s, s'))"
    using e r by simp
  have p': "heap_inv (heap s', mem s')" "set (heap s') = set (heap s)"
     "length (heap s') = length (heap s)"
     "ptrs s' = ptrs s" "nalloc s' = nalloc s" "notifying s' = notifying s"
     "draining s' = draining s" "matching s' = matching s"
     "insertionCount s' = insertionCount s" "doneCh_closed s' = doneCh_closed s"
     "workerQueue s' = workerQueue s" "nchans s' = Suc (nchans s)"
     "chans s' = (chans s)(nchans s := [])" "numWorkers s' = numWorkers s"
    using p by simp_all
  show ?thesis
    using r' inv' p' fr by blast
qed

lemma popIfNotEmpty_frame:
  assumes "popIfNotEmpty s = Return (r, s')"
  shows "chans s' = chans s" "nchans s' = nchans s" "nalloc s' = nalloc s"
    "insertionCount s' = insertionCount s" "ptrs s' = ptrs s" "doneCh_closed s' = doneCh_closed s"
    "workerQueue s' = workerQueue s" "wchans s' = wchans s" "blocks s' = blocks s"
    "\<And>b. requests (mem s' b) = requests (mem s b)"
    "\<And>b. insertionOrder (mem s' b) = insertionOrder (mem s b)"
    "\<And>b. priority (mem s' b) = priority (mem s b)"
    "\<And>b. kmd (mem s' b) = kmd (mem s b)"
    "\<And>b. blockPtr (mem s' b) = blockPtr (mem s b)"
    "\<And>b. ctx (mem s' b) = ctx (mem s b)"
proof -
  have "s' = s \<or> (\<exists>x hm. heap_Pop (heap s, mem s) = Some (x, hm) \<and> s' = s\<lparr>heap := fst hm, mem := snd hm\<rparr>)"
    using assms by (auto simp: popIfNotEmpty_def split: if_splits option.splits)
  then show "chans s' = chans s" "nchans s' = nchans s" "nalloc s' = nalloc s"
    "insertionCount s' = insertionCount s" "ptrs s' = ptrs s" "doneCh_closed s' = doneCh_closed s"
    "workerQueue s' = workerQueue s" "wchans s' = wchans s" "blocks s' = blocks s"
    "\<And>b. requests (mem s' b) = requests (mem s b)"
    "\<And>b. insertionOrder (mem s' b) = insertionOrder (mem s b)"
    "\<And>b. priority (mem s' b) = priority (mem s b)"
    "\<And>b. kmd (mem s' b) = kmd (mem s b)"
    "\<And>b. blockPtr (mem s' b) = blockPtr (mem s b)"
    "\<And>b. ctx (mem s' b) = ctx (mem s b)"
    using heap_Pop_fields by auto
qed

lemma Request_locked_split:
  obtains (create) "ptrs s ptr = None \<or> (\<exists>a. ptrs s ptr = Some a \<and> closed (ctx (mem s a)))"
  | (attach) a where "ptrs s ptr = Some a" "\<not> closed (ctx (mem s a))"
  by (cases "ptrs s ptr") auto


lemma Request_closed_state:
  assumes "doneCh_closed s" "Request s c prio k ptr blk = Some (Return (m, ch, s'))"
  shows "s' = s\<lparr>chans := (chans s)(nchans s := [Some EOF]), nchans := Suc (nchans s)\<rparr>"
  using assms by (auto simp: Request_def Let_def)

lemma Request_open:
  "\<not> doneCh_closed s \<Longrightarrow> Request s c prio k ptr blk = Request_locked s c prio k ptr blk"
  by (simp add: Request_def)


lemma chan_invD:
  assumes "chan_inv s C"
  shows "\<And>a req. req \<in> set (requests (mem s a)) \<Longrightarrow> doneCh req < nchans s"
    "\<And>a. distinct (map doneCh (requests (mem s a)))"
    "\<And>a b req req'. req \<in> set (requests (mem s a)) \<Longrightarrow> req' \<in> set (requests (mem s b))
        \<Longrightarrow> doneCh req = doneCh req' \<Longrightarrow> a = b"
    "\<And>a req. a \<notin> C \<Longrightarrow> req \<in> set (requests (mem s a)) \<Longrightarrow> chans s (doneCh req) = []"
  using assms unfolding chan_inv_def by blast+

lemma chan_inv_append:
  assumes "chan_inv s C"
    and n: "nchans s' = Suc (nchans s)"
    and c: "chans s' = (chans s)(nchans s := [])"
    and r: "\<And>b. requests (mem s' b)
               = (if b = a then rs @ [\<lparr>block = blk, doneCh = nchans s\<rparr>]
                  else requests (mem s b))"
    and rs: "rs = requests (mem s a) \<or> rs = []"
  shows "chan_inv s' C"
proof -
  note d = chan_invD [OF assms(1)]
  have sub: "set rs \<subseteq> set (requests (mem s a))" using rs by auto
  have lt: "\<And>req. req \<in> set rs \<Longrightarrow> doneCh req < nchans s" using sub d(1) by blast
  have drs: "distinct (map doneCh rs)" using rs d(2) [of a] by auto
  have mem: "\<And>b req. req \<in> set (requests (mem s' b)) \<Longrightarrow>
      (b = a \<and> req = \<lparr>block = blk, doneCh = nchans s\<rparr>)
      \<or> (req \<in> set (requests (mem s b)) \<and> doneCh req < nchans s)"
    using r sub d(1) by (auto split: if_splits)
  show ?thesis
    unfolding chan_inv_def
  proof (intro conjI allI ballI impI)
    fix b req assume "req \<in> set (requests (mem s' b))"
    then show "doneCh req < nchans s'" using mem [of req b] n by auto
  next
    fix b
    show "distinct (map doneCh (requests (mem s' b)))"
    proof (cases "b = a")
      case True
      have "nchans s \<notin> doneCh ` set rs" using lt by fastforce
      then show ?thesis using drs True r by simp
    next
      case False
      then show ?thesis using r d(2) by simp
    qed
  next
    fix b b' req req'
    assume a1: "req \<in> set (requests (mem s' b))" and a2: "req' \<in> set (requests (mem s' b'))"
      and e: "doneCh req = doneCh req'"
    from mem [OF a1] mem [OF a2] e show "b = b'"
      using d(3) by (elim disjE conjE) auto
  next
    fix b req
    assume b: "b \<notin> C" and a1: "req \<in> set (requests (mem s' b))"
    from mem [OF a1] show "chans s' (doneCh req) = []"
    proof
      assume "b = a \<and> req = \<lparr>block = blk, doneCh = nchans s\<rparr>"
      then show ?thesis by (simp add: c)
    next
      assume "req \<in> set (requests (mem s b)) \<and> doneCh req < nchans s"
      then show ?thesis using d(4) [OF b] by (simp add: c)
    qed
  qed
qed

lemma Request_locked_chan_inv:
  assumes "brq_inv s C" "chan_inv s C" "Request_locked s c prio k ptr blk = Some (Return (m, ch, s'))"
  shows "chan_inv s' C"
proof (cases rule: Request_locked_split [of s ptr])
  case create
  from Request_locked_create [OF assms(1) create, of c prio k blk] assms(3)
  have p: "nchans s' = Suc (nchans s)" "chans s' = (chans s)(nchans s := [])"
    "requests (mem s' (nalloc s)) = [\<lparr>block = blk, doneCh = nchans s\<rparr>]"
    "\<And>b. b \<noteq> nalloc s \<Longrightarrow> requests (mem s' b) = requests (mem s b)"
    by auto
  show ?thesis
  proof (rule chan_inv_append [OF assms(2) p(1,2), of "nalloc s" "[]" blk])
    fix b
    show "requests (mem s' b)
            = (if b = nalloc s then [] @ [\<lparr>block = blk, doneCh = nchans s\<rparr>]
               else requests (mem s b))"
      using p(3,4) by simp
  qed simp
next
  case (attach a)
  from Request_locked_attach [OF assms(1) attach, of c prio k blk] assms(3)
  have p: "nchans s' = Suc (nchans s)" "chans s' = (chans s)(nchans s := [])"
    "\<And>b. requests (mem s' b)
               = (if b = a then requests (mem s a) @ [\<lparr>block = blk, doneCh = nchans s\<rparr>]
                  else requests (mem s b))"
    by auto
  show ?thesis
    by (rule chan_inv_append [OF assms(2) p(1,2), of a "requests (mem s a)" blk]) (simp_all add: p(3))
qed

lemma chan_inv_mono:
  assumes "chan_inv s C" "chans s' = chans s" "nchans s' = nchans s"
    "\<And>b. requests (mem s' b) = requests (mem s b)" "C \<subseteq> C'"
  shows "chan_inv s' C'"
  using assms unfolding chan_inv_def by (simp add: subset_iff) blast

lemma reachable_chan_inv: "reachable s C \<Longrightarrow> chan_inv s C"
proof (induction rule: reachable.induct)
  case (r_init n)
  show ?case by (simp add: chan_inv_def newBlockRetrievalQueue_def)
next
  case (r_request s C c prio k ptr blk m ch s')
  show ?case
  proof (cases "doneCh_closed s")
    case True
    note d = chan_invD [OF r_request.IH]
    have "\<And>a req. req \<in> set (requests (mem s a)) \<Longrightarrow> doneCh req \<noteq> nchans s"
      using d(1) by fastforce
    then show ?thesis
      using d unfolding Request_closed_state [OF True r_request.hyps(2)] chan_inv_def
      by (simp add: less_Suc_eq)
  next
    case False
    then show ?thesis
      using Request_locked_chan_inv [OF reachable_inv [OF r_request.hyps(1)] r_request.IH]
        r_request.hyps(2) by (simp add: Request_open)
  qed
next
  case (r_request_late s C c prio k ptr blk m ch s')
  then show ?case
    using Request_locked_chan_inv [OF reachable_inv [OF r_request_late.hyps(1)]] by blast
next
  case (r_select_done s C)
  then show ?case by (simp add: chan_inv_def)
next
  case (r_select_worker s C ch q)
  then show ?case by (simp add: chan_inv_def)
next
  case (r_pop_drain s C r s')
  note f = popIfNotEmpty_frame [OF r_pop_drain.hyps(3)]
  show ?case
    by (rule chan_inv_mono [OF r_pop_drain.IH]) (simp_all add: f)
next
  case (r_pop_match s C ch r s')
  note f = popIfNotEmpty_frame [OF r_pop_match.hyps(3)]
  show ?case
    by (rule chan_inv_mono [OF r_pop_match.IH]) (simp_all add: f)
next
  case (r_finalize_delete s C a)
  then show ?case by (simp add: chan_inv_def)
next
  case (r_cancel s C a)
  show ?case
    by (rule chan_inv_mono [OF r_cancel.IH]) simp_all
next
  case (r_set_block s C t b)
  then show ?case by (simp add: chan_inv_def)
next
  case (r_send s C a req e)
  note d = chan_invD [OF r_send.IH]
  have ne: "\<And>b req'. b \<notin> C \<Longrightarrow> req' \<in> set (requests (mem s b)) \<Longrightarrow> doneCh req' \<noteq> doneCh req"
    using d(3) r_send.hyps(2,3) by metis
  show ?case
    unfolding chan_inv_def
  proof (intro conjI allI ballI impI)
    fix b req' assume "b \<notin> C" "req' \<in> set (requests
        (mem (s\<lparr>chans := (chans s)(doneCh req := chans s (doneCh req) @ [e])\<rparr>) b))"
    then show "chans (s\<lparr>chans := (chans s)(doneCh req := chans s (doneCh req) @ [e])\<rparr>) (doneCh req') = []"
      using ne [of b req'] d(4) [of b req'] by simp
  next
    fix b req' assume "req' \<in> set (requests
        (mem (s\<lparr>chans := (chans s)(doneCh req := chans s (doneCh req) @ [e])\<rparr>) b))"
    then show "doneCh req' < nchans (s\<lparr>chans := (chans s)(doneCh req := chans s (doneCh req) @ [e])\<rparr>)"
      using d(1) by simp
  next
    fix b
    show "distinct (map doneCh (requests
        (mem (s\<lparr>chans := (chans s)(doneCh req := chans s (doneCh req) @ [e])\<rparr>) b)))"
      using d(2) by simp
  next
    fix b b' r1 r2
    assume "r1 \<in> set (requests
        (mem (s\<lparr>chans := (chans s)(doneCh req := chans s (doneCh req) @ [e])\<rparr>) b))"
      "r2 \<in> set (requests
        (mem (s\<lparr>chans := (chans s)(doneCh req := chans s (doneCh req) @ [e])\<rparr>) b'))"
      "doneCh r1 = doneCh r2"
    then show "b = b'" using d(3) [of r1 b r2 b'] by simp
  qed
next
  case (r_receive s C ch)
  then show ?case by (simp add: chan_inv_def) fastforce
next
  case (r_worker_receive s C ch)
  then show ?case by (simp add: chan_inv_def)
next
  case (r_Shutdown s C evs s')
  have "chans s' = chans s" "nchans s' = nchans s" "mem s' = mem s"
    using r_Shutdown.hyps(2) by (auto simp: Shutdown_def close_doneCh_def split: if_splits)
  then show ?case
    by (intro chan_inv_mono [OF r_Shutdown.IH]) simp_all
next
  case (r_WorkOnRequest s C ch s')
  have "chans s' = chans s" "nchans s' = nchans s" "mem s' = mem s"
    using r_WorkOnRequest.hyps(2) by (auto simp: WorkOnRequest_def Let_def split: if_splits)
  then show ?case
    by (intro chan_inv_mono [OF r_WorkOnRequest.IH]) simp_all
qed

section \<open>Scenarios are reachable\<close>

lemma reachable_after_Request:
  "reachable s C \<Longrightarrow> reachable (after_Request s c prio k ptr blk) C"
proof -
  assume r: "reachable s C"
  show ?thesis
  proof (cases "Request s c prio k ptr blk")
    case None
    then show ?thesis using r by (simp add: after_Request_def state_after_def)
  next
    case (Some x)
    show ?thesis
    proof (cases x)
      case (Return y)
      obtain m ch s' where y: "y = (m, ch, s')" by (cases y) auto
      have "reachable s' C" using r Some Return y by (intro r_request [OF r]) simp
      then show ?thesis using Some Return y by (simp add: after_Request_def state_after_def)
    qed (use r Some in \<open>simp_all add: after_Request_def state_after_def\<close>)
  qed
qed

lemma reachable_after_cancel: "reachable s C \<Longrightarrow> reachable (after_cancel s a) C"
  unfolding after_cancel_def by (rule r_cancel)

lemma reachable_after_Shutdown: "reachable s C \<Longrightarrow> reachable (after_Shutdown s) C"
proof -
  assume r: "reachable s C"
  show ?thesis
  proof (cases "Shutdown s")
    case (Return y)
    then have "Shutdown s = Return (fst y, snd y)" by simp
    from r_Shutdown [OF r this] show ?thesis using Return by (simp add: after_Shutdown_def)
  qed (use r in \<open>simp_all add: after_Shutdown_def\<close>)
qed

lemma reachable_after_WorkOnRequest: "reachable s C \<Longrightarrow> reachable (after_WorkOnRequest s) C"
proof -
  assume r: "reachable s C"
  show ?thesis
  proof (cases "WorkOnRequest s")
    case (Return y)
    then have "WorkOnRequest s = Return (fst y, snd y)" by simp
    from r_WorkOnRequest [OF r this] show ?thesis using Return by (simp add: after_WorkOnRequest_def)
  qed (use r in \<open>simp_all add: after_WorkOnRequest_def\<close>)
qed

lemma reachable_after_select_worker: "reachable s C \<Longrightarrow> reachable (after_select_worker s) C"
proof -
  assume r: "reachable s C"
  show ?thesis
  proof (cases "workerQueue s")
    case Nil
    then show ?thesis using r by (simp add: after_select_worker_def)
  next
    case (Cons ch q)
    show ?thesis
    proof (cases "0 < notifying s")
      case True
      from r_select_worker [OF r Cons True] show ?thesis
        using Cons True by (simp add: after_select_worker_def)
    next
      case False
      then show ?thesis using r Cons by (simp add: after_select_worker_def)
    qed
  qed
qed

lemma reachable_after_pop_match:
  "reachable s C \<Longrightarrow> reachable (after_pop_match s) (C \<union> claimed_by_pop s)"
proof -
  assume r: "reachable s C"
  show ?thesis
  proof (cases "matching s")
    case Nil
    then show ?thesis using r by (simp add: after_pop_match_def claimed_by_pop_def)
  next
    case (Cons ch q)
    then have m: "ch \<in> set (matching s)" by simp
    show ?thesis
    proof (cases "popIfNotEmpty s")
      case (Return y)
      then have "popIfNotEmpty s = Return (fst y, snd y)" by simp
      from r_pop_match [OF r m this] show ?thesis
        using Cons Return by (simp add: after_pop_match_def claimed_by_pop_def)
    qed (use r Cons in \<open>simp_all add: after_pop_match_def claimed_by_pop_def\<close>)
  qed
qed

lemma reachable_sc_X10: "reachable sc_X10 {}"
  unfolding sc_X10_def by (intro reachable_after_Request r_init)

lemma reachable_sc_canceled: "reachable (after_cancel sc_X10 0) {}"
  by (intro reachable_after_cancel reachable_sc_X10)

lemma reachable_sc_race: "reachable sc_race {}"
  unfolding sc_race_def by (intro reachable_after_Request reachable_sc_canceled)

section \<open>The loop of Request\<close>

text \<open>
  C7: in every reachable state the loop of \<open>Request\<close> returns after one or two
  iterations. It runs two exactly when the block pointer has an entry whose coalescing
  context is already canceled: the first iteration removes the entry and continues, the
  second finds no entry (the lock is held throughout, so nothing comes in between), makes
  a new retrieval at a new address with the caller's request, registers it and returns.
\<close>

theorem Request_loop_at_most_two:
  assumes "reachable s C"
  shows "\<exists>m ch s'. Request_locked s c prio k ptr blk = Some (Return (m, ch, s'))
           \<and> 1 \<le> m \<and> m \<le> 2
           \<and> (m = 2) = (\<exists>a. ptrs s ptr = Some a \<and> closed (ctx (mem s a)))
           \<and> (m = 2 \<longrightarrow> ptrs s' ptr = Some (nalloc s) \<and> nalloc s' = Suc (nalloc s)
                 \<and> requests (mem s' (nalloc s)) = [\<lparr>block = blk, doneCh = ch\<rparr>])"
proof (cases rule: Request_locked_split [of s ptr])
  case create
  from Request_locked_create [OF reachable_inv [OF assms] create, of c prio k blk]
  obtain m s' where r: "Request_locked s c prio k ptr blk = Some (Return (m, nchans s, s'))"
    and m: "(m = 2) = (ptrs s ptr \<noteq> None)" "(m = 1) = (ptrs s ptr = None)"
    and p: "ptrs s' = (ptrs s)(ptr \<mapsto> nalloc s)" "nalloc s' = Suc (nalloc s)"
      "requests (mem s' (nalloc s)) = [\<lparr>block = blk, doneCh = nchans s\<rparr>]"
    by auto
  have "1 \<le> m \<and> m \<le> 2" using m by (cases "ptrs s ptr") auto
  moreover have "(m = 2) = (\<exists>a. ptrs s ptr = Some a \<and> closed (ctx (mem s a)))"
    using m create by auto
  ultimately show ?thesis using r p by auto
next
  case (attach a)
  from Request_locked_attach [OF reachable_inv [OF assms] attach, of c prio k blk]
  obtain s' where r: "Request_locked s c prio k ptr blk = Some (Return (1, nchans s, s'))"
    by blast
  then show ?thesis using attach by auto
qed

theorem Request_loop_at_most_two_witness:
  "reachable (after_cancel sc_X10 0) {}
   \<and> ptrs (after_cancel sc_X10 0) 5 = Some 0
   \<and> closed (ctx (mem (after_cancel sc_X10 0) 0))
   \<and> (\<exists>ch s'. Request_locked (after_cancel sc_X10 0) 1 10 8 5 4 = Some (Return (2, ch, s'))
         \<and> ptrs s' 5 = Some 1)"
proof -
  let ?s = "after_cancel sc_X10 0"
  have f: "ptrs ?s 5 = Some 0" "closed (ctx (mem ?s 0))" "nalloc ?s = 1"
    by code_simp+
  from Request_loop_at_most_two [OF reachable_sc_canceled, of 1 10 8 5 4]
  obtain m ch s' where r: "Request_locked ?s 1 10 8 5 4 = Some (Return (m, ch, s'))"
    and m: "(m = 2) = (\<exists>a. ptrs ?s 5 = Some a \<and> closed (ctx (mem ?s a)))"
    and p: "m = 2 \<longrightarrow> ptrs s' 5 = Some (nalloc ?s)"
    by blast
  have "m = 2" using m f by simp
  then show ?thesis using r p f reachable_sc_canceled by auto
qed

text \<open>
  C9: a \<open>Request\<close> that attaches to the existing retrieval of its block pointer (the
  coalescing context takes the caller's context) leaves the key metadata of every retrieval
  as it was, and the call's own key metadata argument does not enter the result: any other
  argument gives the same channel and the same state.
\<close>

theorem Request_attach_keeps_kmd:
  assumes "reachable s C" "ptrs s ptr = Some a" "\<not> closed (ctx (mem s a))"
  shows "\<exists>ch s'. Request_locked s c prio k ptr blk = Some (Return (1, ch, s'))
           \<and> (\<forall>b. kmd (mem s' b) = kmd (mem s b))
           \<and> ptrs s' = ptrs s \<and> nalloc s' = nalloc s
           \<and> (\<forall>k'. Request_locked s c prio k' ptr blk = Request_locked s c prio k ptr blk)
           \<and> (\<forall>k'. Request s c prio k' ptr blk = Request s c prio k ptr blk)"
proof -
  have reg: "\<forall>p a. ptrs s p = Some a \<longrightarrow> blockPtr (mem s a) = p"
    using reachable_inv [OF assms(1)] by (simp add: brq_inv_def)
  have k: "Request_locked s c prio k' ptr blk = Request_locked s c prio k ptr blk" for k'
    using assms(2,3) by (simp add: Request_locked_cases [OF reg])
  then have k2: "Request s c prio k' ptr blk = Request s c prio k ptr blk" for k'
    by (simp add: Request_def)
  from Request_locked_attach [OF reachable_inv [OF assms(1)] assms(2,3), of c prio k blk]
  obtain s' where r: "Request_locked s c prio k ptr blk = Some (Return (1, nchans s, s'))"
    and p: "ptrs s' = ptrs s" "nalloc s' = nalloc s"
    and f: "\<And>b. kmd (mem s' b) = kmd (mem s b)"
    by blast
  show ?thesis using r p f k k2 by blast
qed

theorem Request_attach_keeps_kmd_witness:
  "reachable sc_X10 {} \<and> ptrs sc_X10 5 = Some 0 \<and> \<not> closed (ctx (mem sc_X10 0))
   \<and> kmd (mem sc_X10 0) = 7
   \<and> (\<exists>ch s'. Request_locked sc_X10 1 50 99 5 4 = Some (Return (1, ch, s'))
         \<and> kmd (mem s' 0) = 7 \<and> ptrs s' 5 = Some 0)"
proof -
  have f: "ptrs sc_X10 5 = Some 0" "\<not> closed (ctx (mem sc_X10 0))" "kmd (mem sc_X10 0) = 7"
    by code_simp+
  from Request_attach_keeps_kmd [OF reachable_sc_X10 f(1,2), of 1 50 99 4]
  obtain ch s' where r: "Request_locked sc_X10 1 50 99 5 4 = Some (Return (1, ch, s'))"
    and k: "\<forall>b. kmd (mem s' b) = kmd (mem sc_X10 b)" and p: "ptrs s' = ptrs sc_X10"
    by blast
  show ?thesis using r k p f reachable_sc_X10 by auto
qed

section \<open>Priorities\<close>

lemma reachable_sc_claimed: "reachable sc_claimed {0}"
proof -
  let ?s = "after_select_worker
       (after_Request (after_WorkOnRequest (newBlockRetrievalQueue 1)) 0 10 7 5 3)"
  have "reachable ?s {}"
    by (intro reachable_after_select_worker reachable_after_Request
          reachable_after_WorkOnRequest r_init)
  then have "reachable (after_pop_match ?s) ({} \<union> claimed_by_pop ?s)"
    by (rule reachable_after_pop_match)
  moreover have "claimed_by_pop ?s = {0}" by code_simp
  ultimately show ?thesis by (simp add: sc_claimed_def)
qed

lemma reachable_sc_late: "reachable sc_late {0}"
  unfolding sc_late_def by (intro reachable_after_Request reachable_sc_claimed)

text \<open>
  C3, as stated, fails: a caller asks for block pointer 5 at priority 10, a worker claims
  the retrieval, a second caller asks for the same block pointer at priority 50. The
  second request is attached to the retrieval (it has two requests), but the stored
  priority is still 10, not the maximum 50: \<open>Request\<close> skips the raise when the index
  is \<open>-1\<close>.
\<close>

theorem priority_raise_claimed_counterexample:
  "reachable sc_late {0} \<and> ptrs sc_late 5 = Some 0 \<and> index (mem sc_late 0) = - 1
   \<and> length (requests (mem sc_late 0)) = 2
   \<and> priority (mem sc_late 0) = 10 \<and> priority (mem sc_late 0) \<noteq> max 10 50"
proof -
  have "ptrs sc_late 5 = Some 0" "index (mem sc_late 0) = - 1"
    "length (requests (mem sc_late 0)) = 2" "priority (mem sc_late 0) = 10"
    by code_simp+
  then show ?thesis using reachable_sc_late by simp
qed

lemma Request_attach_step:
  assumes "reachable s C" "\<not> doneCh_closed s" "ptrs s ptr = Some a" "\<not> closed (ctx (mem s a))"
  shows "reachable (after_Request s c prio k ptr blk) C"
    "\<not> doneCh_closed (after_Request s c prio k ptr blk)"
    "ptrs (after_Request s c prio k ptr blk) ptr = Some a"
    "\<not> closed (ctx (mem (after_Request s c prio k ptr blk) a))"
    "set (heap (after_Request s c prio k ptr blk)) = set (heap s)"
    "priority (mem (after_Request s c prio k ptr blk) a)
       = (if a \<in> set (heap s) then max (priority (mem s a)) prio else priority (mem s a))"
proof -
  note inv = reachable_inv [OF assms(1)]
  from Request_locked_attach [OF inv assms(3,4), of c prio k blk]
  obtain s' where r: "Request_locked s c prio k ptr blk = Some (Return (1, nchans s, s'))"
    and p: "set (heap s') = set (heap s)" "ptrs s' = ptrs s" "doneCh_closed s' = doneCh_closed s"
    and f: "\<And>b. closed (ctx (mem s' b)) = closed (ctx (mem s b))"
      "\<And>b. priority (mem s' b)
               = (if b = a \<and> index (mem s a) \<noteq> - 1 \<and> priority (mem s a) < prio then prio
                  else priority (mem s b))"
    by blast
  have e: "after_Request s c prio k ptr blk = s'"
    using r assms(2) by (simp add: after_Request_def state_after_def Request_open)
  have io: "idx_ok (heap s, mem s)" using inv by (simp add: brq_inv_def heap_inv_def)
  have mem: "(a \<in> set (heap s)) = (index (mem s a) \<noteq> - 1)"
    using idx_ok_mem_iff [OF io, of a] by simp
  show "reachable (after_Request s c prio k ptr blk) C"
    by (rule reachable_after_Request [OF assms(1)])
  show "\<not> doneCh_closed (after_Request s c prio k ptr blk)" using assms(2) p by (simp add: e)
  show "ptrs (after_Request s c prio k ptr blk) ptr = Some a" using assms(3) p by (simp add: e)
  show "\<not> closed (ctx (mem (after_Request s c prio k ptr blk) a))" using assms(4) f by (simp add: e)
  show "set (heap (after_Request s c prio k ptr blk)) = set (heap s)" using p by (simp add: e)
  show "priority (mem (after_Request s c prio k ptr blk) a)
       = (if a \<in> set (heap s) then max (priority (mem s a)) prio else priority (mem s a))"
    by (auto simp: e f mem)
qed

lemma Request_seq_attached:
  assumes "reachable s C" "\<not> doneCh_closed s" "ptrs s ptr = Some a" "\<not> closed (ctx (mem s a))"
    "a \<in> set (heap s)"
  shows "ptrs (Request_seq s ptr rs) ptr = Some a \<and> a \<in> set (heap (Request_seq s ptr rs))
    \<and> priority (mem (Request_seq s ptr rs) a)
         = Max (insert (priority (mem s a)) (set (map (\<lambda>r. fst (snd r)) rs)))"
  using assms
proof (induction rs arbitrary: s)
  case Nil
  then show ?case by simp
next
  case (Cons r rs)
  let ?s1 = "after_Request s (fst r) (fst (snd r)) (fst (snd (snd r))) ptr (snd (snd (snd r)))"
  note st = Request_attach_step [OF Cons.prems(1-4), of "fst r" "fst (snd r)" "fst (snd (snd r))"
      "snd (snd (snd r))"]
  have h: "a \<in> set (heap ?s1)" using st(5) Cons.prems(5) by simp
  have pr: "priority (mem ?s1 a) = max (priority (mem s a)) (fst (snd r))"
    using st(6) Cons.prems(5) by simp
  from Cons.IH [OF st(1-4) h]
  have "ptrs (Request_seq ?s1 ptr rs) ptr = Some a \<and> a \<in> set (heap (Request_seq ?s1 ptr rs))
    \<and> priority (mem (Request_seq ?s1 ptr rs) a)
         = Max (insert (max (priority (mem s a)) (fst (snd r))) (set (map (\<lambda>r. fst (snd r)) rs)))"
    by (simp add: pr)
  moreover have "Max (insert (max (priority (mem s a)) (fst (snd r))) (set (map (\<lambda>r. fst (snd r)) rs)))
      = Max (insert (priority (mem s a)) (set (map (\<lambda>r. fst (snd r)) (r # rs))))"
  proof -
    let ?A = "set (map (\<lambda>r. fst (snd r)) rs)"
    have "Max (insert (priority (mem s a)) (insert (fst (snd r)) ?A))
            = max (priority (mem s a)) (Max (insert (fst (snd r)) ?A))"
      by (rule Max_insert) simp_all
    also have "\<dots> = Max (insert (max (priority (mem s a)) (fst (snd r))) ?A)"
      by (cases "?A = {}") (simp_all add: max.assoc)
    finally show ?thesis by simp
  qed
  ultimately show ?case by simp
qed

lemma reachable_Request_seq: "reachable s C \<Longrightarrow> reachable (Request_seq s ptr rs) C"
  by (induction rs arbitrary: s) (simp_all add: reachable_after_Request)

lemma Request_create_step:
  assumes "reachable s C" "\<not> doneCh_closed s" "ptrs s ptr = None"
  shows "reachable (after_Request s c prio k ptr blk) C"
    "\<not> doneCh_closed (after_Request s c prio k ptr blk)"
    "ptrs (after_Request s c prio k ptr blk) ptr = Some (nalloc s)"
    "\<not> closed (ctx (mem (after_Request s c prio k ptr blk) (nalloc s)))"
    "nalloc s \<in> set (heap (after_Request s c prio k ptr blk))"
    "priority (mem (after_Request s c prio k ptr blk) (nalloc s)) = prio"
proof -
  note inv = reachable_inv [OF assms(1)]
  have cr: "ptrs s ptr = None \<or> (\<exists>a. ptrs s ptr = Some a \<and> closed (ctx (mem s a)))"
    using assms(3) by simp
  from Request_locked_create [OF inv cr, of c prio k blk]
  obtain m s' where r: "Request_locked s c prio k ptr blk = Some (Return (m, nchans s, s'))"
    and p: "ptrs s' = (ptrs s)(ptr \<mapsto> nalloc s)" "priority (mem s' (nalloc s)) = prio"
      "set (heap s') = insert (nalloc s) (set (heap s))" "doneCh_closed s' = doneCh_closed s"
      "ctx (mem s' (nalloc s)) = NewCoalescingContext c"
    by auto
  have e: "after_Request s c prio k ptr blk = s'"
    using r assms(2) by (simp add: after_Request_def state_after_def Request_open)
  show "reachable (after_Request s c prio k ptr blk) C"
    by (rule reachable_after_Request [OF assms(1)])
  show "\<not> doneCh_closed (after_Request s c prio k ptr blk)" using assms(2) p by (simp add: e)
  show "ptrs (after_Request s c prio k ptr blk) ptr = Some (nalloc s)" using p by (simp add: e)
  show "\<not> closed (ctx (mem (after_Request s c prio k ptr blk) (nalloc s)))"
    using p by (simp add: e NewCoalescingContext_def)
  show "nalloc s \<in> set (heap (after_Request s c prio k ptr blk))" using p by (simp add: e)
  show "priority (mem (after_Request s c prio k ptr blk) (nalloc s)) = prio" using p by (simp add: e)
qed

text \<open>
  C3, amended: in a reachable state, a \<open>Request\<close> attached to the retrieval of its block
  pointer sets the stored priority to the maximum of the stored and the requested priority
  when the retrieval is still in the heap, and the heap is again well formed (ordered, with
  the indices right) over the same retrievals; when the retrieval has been claimed, the
  stored priority stays as it is. No other retrieval's priority changes. So for calls
  \<open>p1..pN\<close> on a block pointer that had no entry, with nothing in between, the retrieval
  is in the heap with stored priority \<open>max(p1..pN)\<close>.
\<close>

theorem Request_priority_max_while_queued:
  assumes "reachable s C"
  shows "(\<forall>a. ptrs s ptr = Some a \<and> \<not> closed (ctx (mem s a)) \<longrightarrow>
            (\<exists>ch s'. Request_locked s c prio k ptr blk = Some (Return (1, ch, s'))
               \<and> ptrs s' ptr = Some a
               \<and> priority (mem s' a)
                   = (if a \<in> set (heap s) then max (priority (mem s a)) prio
                      else priority (mem s a))
               \<and> (\<forall>b. b \<noteq> a \<longrightarrow> priority (mem s' b) = priority (mem s b))
               \<and> heap_inv (heap s', mem s') \<and> set (heap s') = set (heap s)))
       \<and> (\<not> doneCh_closed s \<and> ptrs s ptr = None \<and> rs \<noteq> [] \<longrightarrow>
            ptrs (Request_seq s ptr rs) ptr = Some (nalloc s)
            \<and> nalloc s \<in> set (heap (Request_seq s ptr rs))
            \<and> heap_inv (heap (Request_seq s ptr rs), mem (Request_seq s ptr rs))
            \<and> priority (mem (Request_seq s ptr rs) (nalloc s))
                = Max (set (map (\<lambda>r. fst (snd r)) rs)))"
proof (intro conjI allI impI)
  fix a assume a: "ptrs s ptr = Some a \<and> \<not> closed (ctx (mem s a))"
  note inv = reachable_inv [OF assms]
  from Request_locked_attach [OF inv, of ptr a c prio k blk] a
  obtain s' where r: "Request_locked s c prio k ptr blk = Some (Return (1, nchans s, s'))"
    and p: "heap_inv (heap s', mem s')" "set (heap s') = set (heap s)" "ptrs s' = ptrs s"
    and f: "\<And>b. priority (mem s' b)
               = (if b = a \<and> index (mem s a) \<noteq> - 1 \<and> priority (mem s a) < prio then prio
                  else priority (mem s b))"
    by blast
  have io: "idx_ok (heap s, mem s)" using inv by (simp add: brq_inv_def heap_inv_def)
  have mem: "(a \<in> set (heap s)) = (index (mem s a) \<noteq> - 1)"
    using idx_ok_mem_iff [OF io, of a] by simp
  have "priority (mem s' a)
          = (if a \<in> set (heap s) then max (priority (mem s a)) prio else priority (mem s a))"
    by (auto simp: f mem)
  moreover have "\<forall>b. b \<noteq> a \<longrightarrow> priority (mem s' b) = priority (mem s b)"
    by (simp add: f)
  ultimately show "\<exists>ch s'. Request_locked s c prio k ptr blk = Some (Return (1, ch, s'))
               \<and> ptrs s' ptr = Some a
               \<and> priority (mem s' a)
                   = (if a \<in> set (heap s) then max (priority (mem s a)) prio
                      else priority (mem s a))
               \<and> (\<forall>b. b \<noteq> a \<longrightarrow> priority (mem s' b) = priority (mem s b))
               \<and> heap_inv (heap s', mem s') \<and> set (heap s') = set (heap s)"
    using r p a by auto
next
  assume h: "\<not> doneCh_closed s \<and> ptrs s ptr = None \<and> rs \<noteq> []"
  then obtain r rs' where rs: "rs = r # rs'" by (cases rs) auto
  let ?s1 = "after_Request s (fst r) (fst (snd r)) (fst (snd (snd r))) ptr (snd (snd (snd r)))"
  have o: "\<not> doneCh_closed s" and n: "ptrs s ptr = None" using h by simp_all
  note st = Request_create_step [OF assms o n, of "fst r" "fst (snd r)" "fst (snd (snd r))"
      "snd (snd (snd r))"]
  from Request_seq_attached [OF st(1,2,3,4,5), of rs']
  have q: "ptrs (Request_seq ?s1 ptr rs') ptr = Some (nalloc s)"
    "nalloc s \<in> set (heap (Request_seq ?s1 ptr rs'))"
    "priority (mem (Request_seq ?s1 ptr rs') (nalloc s))
         = Max (insert (fst (snd r)) (set (map (\<lambda>r. fst (snd r)) rs')))"
    by (simp_all add: st(6))
  have "brq_inv (Request_seq s ptr rs) C"
    by (intro reachable_inv reachable_Request_seq assms)
  then have hi: "heap_inv (heap (Request_seq s ptr rs), mem (Request_seq s ptr rs))"
    by (simp add: brq_inv_def)
  show "ptrs (Request_seq s ptr rs) ptr = Some (nalloc s)" using q by (simp add: rs)
  show "nalloc s \<in> set (heap (Request_seq s ptr rs))" using q by (simp add: rs)
  show "heap_inv (heap (Request_seq s ptr rs), mem (Request_seq s ptr rs))" by (rule hi)
  show "priority (mem (Request_seq s ptr rs) (nalloc s)) = Max (set (map (\<lambda>r. fst (snd r)) rs))"
    using q by (simp add: rs)
qed

theorem Request_priority_max_while_queued_witness:
  "reachable sc_X10 {} \<and> ptrs sc_X10 5 = Some 0 \<and> \<not> closed (ctx (mem sc_X10 0))
   \<and> 0 \<in> set (heap sc_X10) \<and> priority (mem sc_X10 0) = 10
   \<and> (\<exists>ch s'. Request_locked sc_X10 1 50 8 5 4 = Some (Return (1, ch, s'))
         \<and> priority (mem s' 0) = 50 \<and> heap_inv (heap s', mem s'))
   \<and> reachable sc_claimed {0} \<and> ptrs sc_claimed 5 = Some 0
   \<and> \<not> closed (ctx (mem sc_claimed 0)) \<and> 0 \<notin> set (heap sc_claimed)
   \<and> (\<exists>ch s'. Request_locked sc_claimed 1 50 8 5 4 = Some (Return (1, ch, s'))
         \<and> priority (mem s' 0) = 10)
   \<and> reachable (newBlockRetrievalQueue 1) {}
   \<and> \<not> doneCh_closed (newBlockRetrievalQueue 1) \<and> ptrs (newBlockRetrievalQueue 1) 5 = None
   \<and> priority (mem (Request_seq (newBlockRetrievalQueue 1) 5
                       [(0, 10, 7, 3), (1, 50, 8, 4), (2, 20, 9, 6)]) 0) = 50"
proof -
  have f: "ptrs sc_X10 5 = Some 0" "\<not> closed (ctx (mem sc_X10 0))" "0 \<in> set (heap sc_X10)"
    "priority (mem sc_X10 0) = 10"
    by code_simp+
  have g: "ptrs sc_claimed 5 = Some 0" "\<not> closed (ctx (mem sc_claimed 0))"
    "0 \<notin> set (heap sc_claimed)" "priority (mem sc_claimed 0) = 10"
    by code_simp+
  have i: "\<not> doneCh_closed (newBlockRetrievalQueue 1)" "ptrs (newBlockRetrievalQueue 1) 5 = None"
    "nalloc (newBlockRetrievalQueue 1) = 0"
    by (simp_all add: newBlockRetrievalQueue_def)
  from Request_priority_max_while_queued [OF reachable_sc_X10, of 5 1 50 8 4 "[]"] f
  have 1: "\<exists>ch s'. Request_locked sc_X10 1 50 8 5 4 = Some (Return (1, ch, s'))
         \<and> priority (mem s' 0) = 50 \<and> heap_inv (heap s', mem s')"
    by auto
  from Request_priority_max_while_queued [OF reachable_sc_claimed, of 5 1 50 8 4 "[]"] g
  have 2: "\<exists>ch s'. Request_locked sc_claimed 1 50 8 5 4 = Some (Return (1, ch, s'))
         \<and> priority (mem s' 0) = 10"
    by auto
  from Request_priority_max_while_queued [OF r_init [of 1], of 5 0 0 0 0
      "[(0, 10, 7, 3), (1, 50, 8, 4), (2, 20, 9, 6)]"] i
  have 3: "priority (mem (Request_seq (newBlockRetrievalQueue 1) 5
                       [(0, 10, 7, 3), (1, 50, 8, 4), (2, 20, 9, 6)]) 0) = 50"
    by simp
  show ?thesis
    using f g i(1,2) 1 2 3 reachable_sc_X10 reachable_sc_claimed r_init [of 1] by blast
qed

section \<open>What the heap holds\<close>

text \<open>
  C2, amended: in every reachable state the heap holds, once each, exactly the retrievals
  created and not yet claimed (the retrievals whose index is not \<open>-1\<close>); every entry of
  the registry leads to a retrieval of that block pointer, which is in the heap unless
  claimed; no retrieval is registered under two block pointers. A retrieval can be in the
  heap without being registered.
\<close>

theorem heap_holds_created_unclaimed:
  assumes "reachable s C"
  shows "set (heap s) = {a. a < nalloc s} - C \<and> distinct (heap s) \<and> C \<subseteq> {a. a < nalloc s}
     \<and> (\<forall>a. (a \<in> set (heap s)) = (index (mem s a) \<noteq> - 1))
     \<and> (\<forall>p a. ptrs s p = Some a \<longrightarrow>
           a < nalloc s \<and> blockPtr (mem s a) = p \<and> (a \<notin> C \<longrightarrow> a \<in> set (heap s)))
     \<and> (\<forall>p q a. ptrs s p = Some a \<and> ptrs s q = Some a \<longrightarrow> p = q)"
proof -
  note inv = reachable_inv [OF assms]
  have h: "heap_inv (heap s, mem s)" and st: "set (heap s) = {a. a < nalloc s} - C"
    and c: "C \<subseteq> {a. a < nalloc s}"
    and reg: "\<And>p a. ptrs s p = Some a \<Longrightarrow> a < nalloc s \<and> blockPtr (mem s a) = p"
    using inv by (auto simp: brq_inv_def)
  have io: "idx_ok (heap s, mem s)" using h by (simp add: heap_inv_def)
  have d: "distinct (heap s)" using io by (simp add: idx_ok_def)
  have m: "\<forall>a. (a \<in> set (heap s)) = (index (mem s a) \<noteq> - 1)"
    using idx_ok_mem_iff [OF io] by simp
  have r1: "\<forall>p a. ptrs s p = Some a \<longrightarrow>
           a < nalloc s \<and> blockPtr (mem s a) = p \<and> (a \<notin> C \<longrightarrow> a \<in> set (heap s))"
    using reg st by auto
  have r2: "\<forall>p q a. ptrs s p = Some a \<and> ptrs s q = Some a \<longrightarrow> p = q"
    using reg by metis
  show ?thesis using st d c m r1 r2 by blast
qed

theorem heap_holds_created_unclaimed_witness:
  "reachable sc_race {} \<and> set (heap sc_race) = {0, 1} \<and> distinct (heap sc_race)
   \<and> ptrs sc_race 5 = Some 1 \<and> 1 \<in> set (heap sc_race) \<and> blockPtr (mem sc_race 1) = 5"
proof -
  have n: "nalloc sc_race = 2" and p: "ptrs sc_race 5 = Some 1" by code_simp+
  note t = heap_holds_created_unclaimed [OF reachable_sc_race]
  have "set (heap sc_race) = {a. a < 2}" using t n by simp
  moreover have "{a. a < (2::nat)} = {0, 1}" by auto
  ultimately have s: "set (heap sc_race) = {0, 1}" by simp
  have d: "distinct (heap sc_race)" using t by blast
  have b: "blockPtr (mem sc_race 1) = 5" using t p by blast
  show ?thesis using reachable_sc_race s d p b by simp
qed

text \<open>
  C2, as stated, fails: after a request for block pointer 5, the end of its context, and a
  second request for block pointer 5 (the cancellation race), the first retrieval is still
  in the heap, unclaimed, and the registry holds the second retrieval for block pointer 5.
\<close>

theorem heap_registered_counterexample:
  "reachable sc_race {} \<and> 0 \<in> set (heap sc_race) \<and> blockPtr (mem sc_race 0) = 5
   \<and> ptrs sc_race 5 = Some 1 \<and> ptrs sc_race (blockPtr (mem sc_race 0)) \<noteq> Some 0"
proof -
  have "0 \<in> set (heap sc_race)" "blockPtr (mem sc_race 0) = 5" "ptrs sc_race 5 = Some 1"
    by code_simp+
  then show ?thesis using reachable_sc_race by simp
qed

section \<open>The matching goroutine\<close>

lemma Request_attach_frame:
  assumes "Request_attach n s a prio blk = Return (m, ch, s')"
  shows "workerQueue s' = workerQueue s" "matching s' = matching s" "wchans s' = wchans s"
    "nwchans s' = nwchans s" "numWorkers s' = numWorkers s" "blocks s' = blocks s"
    "draining s' = draining s" "doneCh_closed s' = doneCh_closed s"
  using assms by (auto simp: Request_attach_def Let_def split: option.splits if_splits)

lemma Request_create_frame:
  assumes "Request_create n s c prio k ptr blk = Return (m, ch, s')"
  shows "workerQueue s' = workerQueue s" "matching s' = matching s" "wchans s' = wchans s"
    "nwchans s' = nwchans s" "numWorkers s' = numWorkers s" "blocks s' = blocks s"
    "draining s' = draining s" "doneCh_closed s' = doneCh_closed s"
proof -
  define s4 where "s4 = (let a = nalloc s;
          br = \<lparr>blockPtr = ptr, kmd = k, ctx = NewCoalescingContext c, requests = [],
                index = - 1, priority = prio, insertionOrder = insertionCount s\<rparr>;
          s1 = s\<lparr>mem := (mem s)(a := br), nalloc := Suc a\<rparr>;
          s2 = s1\<lparr>insertionCount := insertionCount s1 + 1\<rparr>;
          s3 = s2\<lparr>ptrs := (ptrs s2)(ptr \<mapsto> a)\<rparr>;
          hm = heap_Push (heap s3, mem s3) a
      in s3\<lparr>heap := fst hm, mem := snd hm\<rparr>)"
  have e: "Request_create n s c prio k ptr blk
             = (case Request_attach n s4 (nalloc s) prio blk of
                  Return r \<Rightarrow> Return (fst r, fst (snd r), notifyWorker (snd (snd r)))
                | Panic \<Rightarrow> Panic | Blocks \<Rightarrow> Blocks)"
    by (simp add: Request_create_def s4_def Let_def)
  from assms obtain r where r: "Request_attach n s4 (nalloc s) prio blk = Return r"
    and s': "s' = notifyWorker (snd (snd r))"
    unfolding e by (cases "Request_attach n s4 (nalloc s) prio blk") auto
  have "Request_attach n s4 (nalloc s) prio blk = Return (fst r, fst (snd r), snd (snd r))"
    using r by simp
  note f = Request_attach_frame [OF this]
  have g: "workerQueue s4 = workerQueue s" "matching s4 = matching s" "wchans s4 = wchans s"
    "nwchans s4 = nwchans s" "numWorkers s4 = numWorkers s" "blocks s4 = blocks s"
    "draining s4 = draining s" "doneCh_closed s4 = doneCh_closed s"
    by (simp_all add: s4_def Let_def)
  show "workerQueue s' = workerQueue s" "matching s' = matching s" "wchans s' = wchans s"
    "nwchans s' = nwchans s" "numWorkers s' = numWorkers s" "blocks s' = blocks s"
    "draining s' = draining s" "doneCh_closed s' = doneCh_closed s"
    by (simp_all add: s' notifyWorker_def f g)
qed

lemma Request_locked_frame:
  assumes "brq_inv s C" "Request_locked s c prio k ptr blk = Some (Return (m, ch, s'))"
  shows "workerQueue s' = workerQueue s" "matching s' = matching s" "wchans s' = wchans s"
    "nwchans s' = nwchans s" "numWorkers s' = numWorkers s" "blocks s' = blocks s"
    "draining s' = draining s" "doneCh_closed s' = doneCh_closed s"
proof -
  have reg: "\<forall>p a. ptrs s p = Some a \<longrightarrow> blockPtr (mem s a) = p"
    using assms(1) by (simp add: brq_inv_def)
  note cs = Request_locked_cases [OF reg, of c prio k ptr blk]
  have "workerQueue s' = workerQueue s \<and> matching s' = matching s \<and> wchans s' = wchans s
    \<and> nwchans s' = nwchans s \<and> numWorkers s' = numWorkers s \<and> blocks s' = blocks s
    \<and> draining s' = draining s \<and> doneCh_closed s' = doneCh_closed s"
  proof (cases "ptrs s ptr")
    case None
    then have "Request_create 1 s c prio k ptr blk = Return (m, ch, s')"
      using cs assms(2) by simp
    from Request_create_frame [OF this] show ?thesis by simp
  next
    case (Some a)
    show ?thesis
    proof (cases "closed (ctx (mem s a))")
      case True
      then have "Request_create 2 (s\<lparr>ptrs := (ptrs s)(ptr := None)\<rparr>) c prio k ptr blk
                  = Return (m, ch, s')"
        using cs assms(2) Some by simp
      from Request_create_frame [OF this] show ?thesis by simp
    next
      case False
      then have "Request_attach 1
                      (s\<lparr>mem := (mem s)(a := (mem s a)\<lparr>ctx :=
                          (ctx (mem s a))\<lparr>children := children (ctx (mem s a)) @ [c]\<rparr>\<rparr>)\<rparr>)
                      a prio blk = Return (m, ch, s')"
        using cs assms(2) Some by simp
      from Request_attach_frame [OF this] show ?thesis by simp
    qed
  qed
  then show "workerQueue s' = workerQueue s" "matching s' = matching s" "wchans s' = wchans s"
    "nwchans s' = nwchans s" "numWorkers s' = numWorkers s" "blocks s' = blocks s"
    "draining s' = draining s" "doneCh_closed s' = doneCh_closed s"
    by simp_all
qed

lemma popIfNotEmpty_frame2:
  assumes "popIfNotEmpty s = Return (r, s')"
  shows "matching s' = matching s" "nwchans s' = nwchans s" "numWorkers s' = numWorkers s"
    "notifying s' = notifying s" "draining s' = draining s"
  using assms by (auto simp: popIfNotEmpty_def split: if_splits option.splits)

lemma wq_inv_same:
  assumes "wq_inv s" "workerQueue s' = workerQueue s" "matching s' = matching s"
    "wchans s' = wchans s" "nwchans s' = nwchans s"
  shows "wq_inv s'"
  using assms by (simp add: wq_inv_def)

lemma reachable_wq_inv: "reachable s C \<Longrightarrow> wq_inv s"
proof (induction rule: reachable.induct)
  case (r_init n)
  show ?case by (simp add: wq_inv_def newBlockRetrievalQueue_def)
next
  case (r_request s C c prio k ptr blk m ch s')
  show ?case
  proof (cases "doneCh_closed s")
    case True
    show ?thesis
      using r_request.IH unfolding Request_closed_state [OF True r_request.hyps(2)]
      by (simp add: wq_inv_def)
  next
    case False
    then have "Request_locked s c prio k ptr blk = Some (Return (m, ch, s'))"
      using r_request.hyps(2) by (simp add: Request_open)
    note f = Request_locked_frame [OF reachable_inv [OF r_request.hyps(1)] this]
    show ?thesis by (rule wq_inv_same [OF r_request.IH]) (simp_all add: f)
  qed
next
  case (r_request_late s C c prio k ptr blk m ch s')
  note f = Request_locked_frame [OF reachable_inv [OF r_request_late.hyps(1)] r_request_late.hyps(2)]
  show ?case by (rule wq_inv_same [OF r_request_late.IH]) (simp_all add: f)
next
  case (r_select_done s C)
  then show ?case by (simp add: wq_inv_def)
next
  case (r_select_worker s C ch q)
  then show ?case by (auto simp: wq_inv_def)
next
  case (r_pop_drain s C r s')
  note f = popIfNotEmpty_frame [OF r_pop_drain.hyps(3)] popIfNotEmpty_frame2 [OF r_pop_drain.hyps(3)]
  show ?case using r_pop_drain.IH by (simp add: wq_inv_def f)
next
  case (r_pop_match s C ch r s')
  note f = popIfNotEmpty_frame [OF r_pop_match.hyps(3)] popIfNotEmpty_frame2 [OF r_pop_match.hyps(3)]
  have d: "distinct (workerQueue s @ matching s)"
    and e: "\<And>c. c \<in> set (workerQueue s) \<union> set (matching s) \<Longrightarrow> c < nwchans s \<and> wchans s c = []"
    using r_pop_match.IH by (auto simp: wq_inv_def)
  have dm: "distinct (matching s)" using d by simp
  have ne: "\<And>c. c \<in> set (workerQueue s) \<union> set (remove1 ch (matching s)) \<Longrightarrow> c \<noteq> ch"
    using d dm r_pop_match.hyps(2) by auto
  have sub: "set (remove1 ch (matching s)) \<subseteq> set (matching s)" by (rule set_remove1_subset)
  show ?case
    unfolding wq_inv_def
  proof (intro conjI ballI)
    show "distinct (workerQueue (s'\<lparr>matching := remove1 ch (matching s'),
              wchans := (wchans s')(ch := wchans s' ch @ [r])\<rparr>)
            @ matching (s'\<lparr>matching := remove1 ch (matching s'),
              wchans := (wchans s')(ch := wchans s' ch @ [r])\<rparr>))"
      using d dm sub by (auto simp: f)
  next
    fix c assume "c \<in> set (workerQueue (s'\<lparr>matching := remove1 ch (matching s'),
              wchans := (wchans s')(ch := wchans s' ch @ [r])\<rparr>)
            @ matching (s'\<lparr>matching := remove1 ch (matching s'),
              wchans := (wchans s')(ch := wchans s' ch @ [r])\<rparr>))"
    then have c: "c \<in> set (workerQueue s) \<union> set (remove1 ch (matching s))" by (simp add: f)
    then have c': "c \<in> set (workerQueue s) \<union> set (matching s)" using sub by auto
    show "c < nwchans (s'\<lparr>matching := remove1 ch (matching s'),
              wchans := (wchans s')(ch := wchans s' ch @ [r])\<rparr>)"
      using e [OF c'] by (simp add: f)
    show "wchans (s'\<lparr>matching := remove1 ch (matching s'),
              wchans := (wchans s')(ch := wchans s' ch @ [r])\<rparr>) c = []"
      using e [OF c'] ne [OF c] by (simp add: f)
  qed
next
  case (r_finalize_delete s C a)
  then show ?case by (simp add: wq_inv_def)
next
  case (r_cancel s C a)
  then show ?case by (simp add: wq_inv_def)
next
  case (r_set_block s C t b)
  then show ?case by (simp add: wq_inv_def)
next
  case (r_send s C a req e)
  then show ?case by (simp add: wq_inv_def)
next
  case (r_receive s C ch)
  then show ?case by (simp add: wq_inv_def)
next
  case (r_worker_receive s C ch)
  then show ?case by (auto simp: wq_inv_def)
next
  case (r_Shutdown s C evs s')
  then show ?case
    by (auto simp: Shutdown_def close_doneCh_def wq_inv_def split: if_splits)
next
  case (r_WorkOnRequest s C ch s')
  have d: "distinct (workerQueue s @ matching s)"
    and e: "\<And>c. c \<in> set (workerQueue s) \<union> set (matching s) \<Longrightarrow> c < nwchans s \<and> wchans s c = []"
    using r_WorkOnRequest.IH by (auto simp: wq_inv_def)
  have s': "s' = s\<lparr>wchans := (wchans s)(nwchans s := []), nwchans := Suc (nwchans s),
                   workerQueue := workerQueue s @ [nwchans s]\<rparr>"
    using r_WorkOnRequest.hyps(2) by (auto simp: WorkOnRequest_def Let_def split: if_splits)
  have fresh: "nwchans s \<notin> set (workerQueue s) \<union> set (matching s)" using e by fastforce
  show ?case
    unfolding s' wq_inv_def using d e fresh by (auto simp: less_Suc_eq)
qed

lemma FinalizeRequest_Return:
  assumes "distinct (map doneCh (requests (mem s a)))"
    and "\<forall>req \<in> set (requests (mem s a)). chans s (doneCh req) = []"
  shows "FinalizeRequest s a blk e
     = Return (notify_trace (requests (mem s a)) blk e,
         notified (s\<lparr>ptrs := (ptrs s)(blockPtr (mem s a) := None),
                     mem := (mem s)(a := (mem s a)\<lparr>ctx := cancelFunc (ctx (mem s a))\<rparr>)\<rparr>)
           (requests (mem s a)) blk e)"
proof -
  let ?s2 = "s\<lparr>ptrs := (ptrs s)(blockPtr (mem s a) := None),
               mem := (mem s)(a := (mem s a)\<lparr>ctx := cancelFunc (ctx (mem s a))\<rparr>)\<rparr>"
  have e: "\<forall>req \<in> set (requests (mem s a)). chans ?s2 (doneCh req) = []" using assms(2) by simp
  show ?thesis
    using notify_requests_Return [OF assms(1) e, of blk e]
    by (simp add: FinalizeRequest_def Let_def)
qed

lemma heap_top_first:
  assumes "heap_inv (h, m)" "b \<in> set h"
  shows "\<not> before (m b) (m (h ! 0))"
proof -
  obtain k where k: "k < length h" "h ! k = b" using assms(2) by (auto simp: in_set_conv_nth)
  have "heap_ordered (h, m) (length h)" using assms(1) by (simp add: heap_inv_def Len_def)
  from heap_ordered_root [OF this k(1)] show ?thesis
    using k(2) by (simp add: Less_before)
qed

lemma popIfNotEmpty_top:
  assumes "heap_inv (heap s, mem s)"
  shows "\<exists>s'. popIfNotEmpty s = Return (if heap s = [] then None else Some (heap s ! 0), s')
      \<and> set (heap s') = set (heap s) - (if heap s = [] then {} else {heap s ! 0})
      \<and> (heap s \<noteq> [] \<longrightarrow> index (mem s' (heap s ! 0)) = - 1)"
proof (cases "heap s = []")
  case True
  then show ?thesis by (simp add: popIfNotEmpty_empty)
next
  case False
  from popIfNotEmpty_nonempty [OF assms False] show ?thesis using False by auto
qed

text \<open>
  C6, amended: in a reachable state, the goroutine of \<open>notifyWorker\<close> whose \<open>select\<close>
  takes the case of the closed \<open>doneCh\<close> returns at once when the heap is empty; otherwise
  it pops the first retrieval of the heap, before which no retrieval of the heap comes in
  the order (priority descending, then insertion order ascending), and finalizes that
  retrieval, whichever creation started the goroutine, with the shutdown error \<open>io.EOF\<close>:
  the retrieval leaves the heap and the registry, and each of its requests gets exactly
  \<open>io.EOF\<close> on its channel, no send blocking. That case cannot be taken while
  \<open>doneCh\<close> is open, nor the other case while no worker waits. When the \<open>select\<close>
  takes the channel of the first waiting worker, the goroutine sends on it the first
  retrieval of the heap, which leaves the heap, or nil when the heap is empty. And the
  retrievals in the heap are never more than the goroutines that have still to call
  \<open>popIfNotEmpty\<close>, so none is left in the heap without a goroutine to pop it.
\<close>

theorem notifyWorker_run_cases:
  assumes "reachable s C"
  shows "(doneCh_closed s \<and> heap s = [] \<longrightarrow>
            notifyWorker_run s DoneCase = Return ([], s\<lparr>notifying := notifying s - 1\<rparr>))
     \<and> (doneCh_closed s \<and> heap s \<noteq> [] \<longrightarrow>
          (\<exists>evs s'. notifyWorker_run s DoneCase = Return (evs, s')
             \<and> (\<forall>b \<in> set (heap s). \<not> before (mem s b) (mem s (heap s ! 0)))
             \<and> set (heap s') = set (heap s) - {heap s ! 0}
             \<and> index (mem s' (heap s ! 0)) = - 1
             \<and> sends_of evs = map (\<lambda>req. (doneCh req, Some EOF)) (requests (mem s (heap s ! 0)))
             \<and> (\<forall>req \<in> set (requests (mem s (heap s ! 0))). chans s' (doneCh req) = [Some EOF])
             \<and> ptrs s' (blockPtr (mem s (heap s ! 0))) = None))
     \<and> (\<not> doneCh_closed s \<longrightarrow> notifyWorker_run s DoneCase = Blocks)
     \<and> (workerQueue s = [] \<longrightarrow> notifyWorker_run s WorkerCase = Blocks)
     \<and> (\<forall>ch q. workerQueue s = ch # q \<longrightarrow>
          (\<exists>s'. notifyWorker_run s WorkerCase
                   = Return ([SendWork ch (if heap s = [] then None else Some (heap s ! 0))], s')
             \<and> wchans s' ch = [if heap s = [] then None else Some (heap s ! 0)]
             \<and> workerQueue s' = q
             \<and> set (heap s') = set (heap s) - (if heap s = [] then {} else {heap s ! 0})
             \<and> (\<forall>b \<in> set (heap s). \<not> before (mem s b) (mem s (heap s ! 0)))))
     \<and> length (heap s) \<le> notifying s + draining s + length (matching s)"
proof -
  note inv = reachable_inv [OF assms]
  note cinv = chan_invD [OF reachable_chan_inv [OF assms]]
  have hi: "heap_inv (heap s, mem s)" and st: "set (heap s) = {a. a < nalloc s} - C"
    and cnt: "length (heap s) \<le> notifying s + draining s + length (matching s)"
    using inv by (simp_all add: brq_inv_def)
  have top: "\<forall>b \<in> set (heap s). \<not> before (mem s b) (mem s (heap s ! 0))"
    using heap_top_first [OF hi] by blast
  let ?s0 = "s\<lparr>notifying := notifying s - 1\<rparr>"
  have 1: "doneCh_closed s \<and> heap s = [] \<longrightarrow>
            notifyWorker_run s DoneCase = Return ([], ?s0)"
    by (simp add: notifyWorker_run_def Let_def popIfNotEmpty_empty)
  have 2: "doneCh_closed s \<and> heap s \<noteq> [] \<longrightarrow>
          (\<exists>evs s'. notifyWorker_run s DoneCase = Return (evs, s')
             \<and> (\<forall>b \<in> set (heap s). \<not> before (mem s b) (mem s (heap s ! 0)))
             \<and> set (heap s') = set (heap s) - {heap s ! 0}
             \<and> index (mem s' (heap s ! 0)) = - 1
             \<and> sends_of evs = map (\<lambda>req. (doneCh req, Some EOF)) (requests (mem s (heap s ! 0)))
             \<and> (\<forall>req \<in> set (requests (mem s (heap s ! 0))). chans s' (doneCh req) = [Some EOF])
             \<and> ptrs s' (blockPtr (mem s (heap s ! 0))) = None)"
  proof
    assume a: "doneCh_closed s \<and> heap s \<noteq> []"
    define a0 where "a0 = heap s ! 0"
    have hi0: "heap_inv (heap ?s0, mem ?s0)" using hi by simp
    have ne0: "heap ?s0 \<noteq> []" using a by simp
    from popIfNotEmpty_nonempty [OF hi0 ne0]
    obtain hm' where p: "popIfNotEmpty ?s0 = Return (Some a0, ?s0\<lparr>heap := fst hm', mem := snd hm'\<rparr>)"
      and pp: "heap_Pop (heap s, mem s) = Some (a0, hm')"
      and h': "set (fst hm') = set (heap s) - {a0}" "index (snd hm' a0) = - 1"
      by (auto simp: a0_def)
    define s1 where "s1 = ?s0\<lparr>heap := fst hm', mem := snd hm'\<rparr>"
    note fl = heap_Pop_fields [OF pp]
    have a0in: "a0 \<in> set (heap s)" using a by (simp add: a0_def)
    then have a0C: "a0 \<notin> C" using st by simp
    have rq: "requests (mem s1 a0) = requests (mem s a0)" by (simp add: s1_def fl)
    have d: "distinct (map doneCh (requests (mem s1 a0)))" using cinv(2) by (simp add: rq)
    have e: "\<forall>req \<in> set (requests (mem s1 a0)). chans s1 (doneCh req) = []"
      using cinv(4) [OF a0C] by (simp add: rq) (simp add: s1_def)
    define s2 where "s2 = s1\<lparr>ptrs := (ptrs s1)(blockPtr (mem s1 a0) := None),
                     mem := (mem s1)(a0 := (mem s1 a0)\<lparr>ctx := cancelFunc (ctx (mem s1 a0))\<rparr>)\<rparr>"
    define s' where "s' = notified s2 (requests (mem s a0)) None (Some EOF)"
    have fin: "FinalizeRequest s1 a0 None (Some EOF)
                 = Return (notify_trace (requests (mem s a0)) None (Some EOF), s')"
      using FinalizeRequest_Return [OF d e, of None "Some EOF"] by (simp add: rq s'_def s2_def)
    have run: "notifyWorker_run s DoneCase
                 = Return (notify_trace (requests (mem s a0)) None (Some EOF), s')"
      using a p fin by (simp add: notifyWorker_run_def Let_def s1_def)
    have f1: "set (heap s') = set (heap s) - {a0}"
      using h' by (simp add: s'_def notified_def s2_def s1_def)
    have f2: "index (mem s' a0) = - 1"
      using h' by (simp add: s'_def notified_def s2_def s1_def)
    have f3: "sends_of (notify_trace (requests (mem s a0)) None (Some EOF))
                = map (\<lambda>req. (doneCh req, Some EOF)) (requests (mem s a0))"
      by (rule sends_of_notify_trace)
    have f4: "\<forall>req \<in> set (requests (mem s a0)). chans s' (doneCh req) = [Some EOF]"
      by (simp add: s'_def notified_def)
    have f5: "ptrs s' (blockPtr (mem s a0)) = None"
      by (simp add: s'_def notified_def s2_def) (simp add: s1_def fl)
    show "\<exists>evs s'. notifyWorker_run s DoneCase = Return (evs, s')
             \<and> (\<forall>b \<in> set (heap s). \<not> before (mem s b) (mem s (heap s ! 0)))
             \<and> set (heap s') = set (heap s) - {heap s ! 0}
             \<and> index (mem s' (heap s ! 0)) = - 1
             \<and> sends_of evs = map (\<lambda>req. (doneCh req, Some EOF)) (requests (mem s (heap s ! 0)))
             \<and> (\<forall>req \<in> set (requests (mem s (heap s ! 0))). chans s' (doneCh req) = [Some EOF])
             \<and> ptrs s' (blockPtr (mem s (heap s ! 0))) = None"
      using run top f1 f2 f3 f4 f5 unfolding a0_def by blast
  qed
  have 3: "\<not> doneCh_closed s \<longrightarrow> notifyWorker_run s DoneCase = Blocks"
    by (simp add: notifyWorker_run_def Let_def)
  have 4: "workerQueue s = [] \<longrightarrow> notifyWorker_run s WorkerCase = Blocks"
    by (simp add: notifyWorker_run_def Let_def)
  have 5: "\<forall>ch q. workerQueue s = ch # q \<longrightarrow>
          (\<exists>s'. notifyWorker_run s WorkerCase
                   = Return ([SendWork ch (if heap s = [] then None else Some (heap s ! 0))], s')
             \<and> wchans s' ch = [if heap s = [] then None else Some (heap s ! 0)]
             \<and> workerQueue s' = q
             \<and> set (heap s') = set (heap s) - (if heap s = [] then {} else {heap s ! 0})
             \<and> (\<forall>b \<in> set (heap s). \<not> before (mem s b) (mem s (heap s ! 0))))"
  proof (intro allI impI)
    fix ch q assume w: "workerQueue s = ch # q"
    let ?r = "if heap s = [] then None else Some (heap s ! 0)"
    let ?s1 = "s\<lparr>notifying := notifying s - 1, workerQueue := q\<rparr>"
    have e: "wchans s ch = []"
      using reachable_wq_inv [OF assms] w by (simp add: wq_inv_def)
    have hi1: "heap_inv (heap ?s1, mem ?s1)" using hi by simp
    from popIfNotEmpty_top [OF hi1]
    obtain s2 where p: "popIfNotEmpty ?s1 = Return (?r, s2)"
      and h2: "set (heap s2) = set (heap s) - (if heap s = [] then {} else {heap s ! 0})"
      by auto
    note f = popIfNotEmpty_frame [OF p]
    have e2: "wchans s2 ch = []" "workerQueue s2 = q" using e by (simp_all add: f)
    have run: "notifyWorker_run s WorkerCase
                 = Return ([SendWork ch ?r], s2\<lparr>wchans := (wchans s2)(ch := wchans s2 ch @ [?r])\<rparr>)"
      using w p e2 by (simp add: notifyWorker_run_def Let_def)
    show "\<exists>s'. notifyWorker_run s WorkerCase = Return ([SendWork ch ?r], s')
             \<and> wchans s' ch = [?r]
             \<and> workerQueue s' = q
             \<and> set (heap s') = set (heap s) - (if heap s = [] then {} else {heap s ! 0})
             \<and> (\<forall>b \<in> set (heap s). \<not> before (mem s b) (mem s (heap s ! 0)))"
      unfolding run using e2 h2 top by simp
  qed
  show ?thesis using 1 2 3 4 5 cnt by blast
qed

lemma reachable_sc_shutdown: "reachable sc_shutdown {}"
  unfolding sc_shutdown_def by (intro reachable_after_Shutdown reachable_sc_X10)

lemma reachable_sc_waiting: "reachable sc_waiting {}"
  unfolding sc_waiting_def
  by (intro reachable_after_Request reachable_after_WorkOnRequest r_init)

theorem notifyWorker_run_cases_witness:
  "reachable sc_shutdown {} \<and> doneCh_closed sc_shutdown \<and> heap sc_shutdown = [0]
   \<and> requests (mem sc_shutdown 0) = [\<lparr>block = 3, doneCh = 0\<rparr>]
   \<and> (\<exists>evs s'. notifyWorker_run sc_shutdown DoneCase = Return (evs, s')
         \<and> heap s' = [] \<and> sends_of evs = [(0, Some EOF)] \<and> chans s' 0 = [Some EOF]
         \<and> ptrs s' 5 = None)
   \<and> reachable sc_waiting {} \<and> workerQueue sc_waiting = [0] \<and> heap sc_waiting = [0]
   \<and> (\<exists>s'. notifyWorker_run sc_waiting WorkerCase = Return ([SendWork 0 (Some 0)], s')
         \<and> wchans s' 0 = [Some 0] \<and> heap s' = [])"
proof -
  have f: "doneCh_closed sc_shutdown" "heap sc_shutdown = [0]"
    "requests (mem sc_shutdown 0) = [\<lparr>block = 3, doneCh = 0\<rparr>]"
    "blockPtr (mem sc_shutdown 0) = 5"
    by code_simp+
  have g: "workerQueue sc_waiting = [0]" "heap sc_waiting = [0]"
    by code_simp+
  from notifyWorker_run_cases [OF reachable_sc_shutdown] f
  have 1: "\<exists>evs s'. notifyWorker_run sc_shutdown DoneCase = Return (evs, s')
         \<and> heap s' = [] \<and> sends_of evs = [(0, Some EOF)] \<and> chans s' 0 = [Some EOF]
         \<and> ptrs s' 5 = None"
    by auto
  from notifyWorker_run_cases [OF reachable_sc_waiting] g
  have 2: "\<exists>s'. notifyWorker_run sc_waiting WorkerCase = Return ([SendWork 0 (Some 0)], s')
         \<and> wchans s' 0 = [Some 0] \<and> heap s' = []"
    by auto
  show ?thesis
    using f(1,2,3) g 1 2 reachable_sc_shutdown reachable_sc_waiting by blast
qed

subsection \<open>A whole run of the goroutine is made of steps\<close>

lemma popIfNotEmpty_matching:
  "popIfNotEmpty (s\<lparr>matching := m\<rparr>)
     = (case popIfNotEmpty s of
          Return r \<Rightarrow> Return (fst r, (snd r)\<lparr>matching := m\<rparr>)
        | Panic \<Rightarrow> Panic | Blocks \<Rightarrow> Blocks)"
  by (simp add: popIfNotEmpty_def split: option.splits)

lemma popIfNotEmpty_draining:
  "popIfNotEmpty (s\<lparr>draining := d\<rparr>)
     = (case popIfNotEmpty s of
          Return r \<Rightarrow> Return (fst r, (snd r)\<lparr>draining := d\<rparr>)
        | Panic \<Rightarrow> Panic | Blocks \<Rightarrow> Blocks)"
  by (simp add: popIfNotEmpty_def split: option.splits)

lemma notify_requests_reachable:
  "reachable s C \<Longrightarrow> a \<in> C \<Longrightarrow> set rs \<subseteq> set (requests (mem s a))
   \<Longrightarrow> notify_requests s rs blk e = Return (evs, s') \<Longrightarrow> reachable s' C"
proof (induction rs arbitrary: s evs)
  case Nil
  then show ?case by simp
next
  case (Cons req rs)
  define s1 where "s1 = (case blk of None \<Rightarrow> s
                | Some b \<Rightarrow> s\<lparr>blocks := (blocks s)(block req := blocks s b)\<rparr>)"
  define s2 where "s2 = s1\<lparr>chans := (chans s1)(doneCh req := chans s1 (doneCh req) @ [e])\<rparr>"
  have r1: "reachable s1 C"
    unfolding s1_def using Cons.prems(1) by (cases blk) (simp_all add: r_set_block)
  have m1: "mem s1 = mem s" by (cases blk) (simp_all add: s1_def)
  have nb: "length (chans s1 (doneCh req)) < 1"
  proof (rule ccontr)
    assume "\<not> length (chans s1 (doneCh req)) < 1"
    then have "length (chans s1 (doneCh req)) \<ge> 1"
      by (cases "chans s1 (doneCh req)") simp_all
    then have "notify_requests s (req # rs) blk e = Blocks"
      by (simp add: Let_def s1_def)
    then show False using Cons.prems(4) by simp
  qed
  obtain r where rr: "notify_requests s2 rs blk e = Return r" and s': "s' = snd r"
    using Cons.prems(4) nb
    by (cases "notify_requests s2 rs blk e") (auto simp: Let_def s1_def s2_def)
  have rq: "req \<in> set (requests (mem s1 a))" using Cons.prems(3) by (simp add: m1)
  have r2: "reachable s2 C"
    unfolding s2_def by (rule r_send [OF r1 Cons.prems(2) rq nb])
  have sub: "set rs \<subseteq> set (requests (mem s2 a))"
    using Cons.prems(3) by (simp add: s2_def m1)
  have "notify_requests s2 rs blk e = Return (fst r, s')" using rr s' by simp
  from Cons.IH [OF r2 Cons.prems(2) sub this] show ?case .
qed

lemma FinalizeRequest_reachable:
  assumes "reachable s C" "a \<in> C" "FinalizeRequest s a blk e = Return (evs, s')"
  shows "reachable s' C"
proof -
  let ?s1 = "s\<lparr>ptrs := (ptrs s)(blockPtr (mem s a) := None)\<rparr>"
  let ?s2 = "?s1\<lparr>mem := (mem ?s1)(a := (mem ?s1 a)\<lparr>ctx := cancelFunc (ctx (mem ?s1 a))\<rparr>)\<rparr>"
  have r1: "reachable ?s1 C" by (rule r_finalize_delete [OF assms(1,2)])
  have r2: "reachable ?s2 C" by (rule r_cancel [OF r1])
  have n: "notify_requests ?s2 (requests (mem ?s2 a)) blk e = Return (evs, s')"
    using assms(3) by (simp add: FinalizeRequest_def Let_def)
  show ?thesis
    by (rule notify_requests_reachable [OF r2 assms(2) _ n]) simp
qed

lemma reachable_after_run:
  assumes "reachable s C" "0 < notifying s"
  shows "\<exists>C'. reachable (after_run s sc) C'"
proof (cases "notifyWorker_run s sc")
  case Panic
  then show ?thesis using assms(1) by (auto simp: after_run_def)
next
  case Blocks
  then show ?thesis using assms(1) by (auto simp: after_run_def)
next
  case (Return res)
  then have ar: "after_run s sc = snd res" by (simp add: after_run_def)
  let ?s0 = "s\<lparr>notifying := notifying s - 1\<rparr>"
  show ?thesis
  proof (cases sc)
    case DoneCase
    have cl: "doneCh_closed s"
      using Return DoneCase by (cases "doneCh_closed s") (simp_all add: notifyWorker_run_def Let_def)
    obtain r t0 where p: "popIfNotEmpty ?s0 = Return (r, t0)"
      using Return DoneCase cl
      by (cases "popIfNotEmpty ?s0") (auto simp: notifyWorker_run_def Let_def)
    let ?s1 = "s\<lparr>notifying := notifying s - 1, draining := Suc (draining s)\<rparr>"
    have r1: "reachable ?s1 C" by (rule r_select_done [OF assms(1) cl assms(2)])
    have p1: "popIfNotEmpty ?s1 = Return (r, t0\<lparr>draining := Suc (draining s)\<rparr>)"
      using popIfNotEmpty_draining [where s = ?s0 and d = "Suc (draining s)"] p by simp
    have d0: "draining t0 = draining s" using popIfNotEmpty_frame2 [OF p] by simp
    have "reachable ((t0\<lparr>draining := Suc (draining s)\<rparr>)
              \<lparr>draining := draining (t0\<lparr>draining := Suc (draining s)\<rparr>) - 1\<rparr>) (C \<union> set_option r)"
      by (rule r_pop_drain [OF r1 _ p1]) simp
    then have "reachable (t0\<lparr>draining := draining t0\<rparr>) (C \<union> set_option r)"
      by (simp add: d0)
    then have rt: "reachable t0 (C \<union> set_option r)" by simp
    show ?thesis
    proof (cases r)
      case None
      then have "snd res = t0"
        using Return DoneCase cl p by (auto simp: notifyWorker_run_def Let_def)
      then show ?thesis using rt ar by auto
    next
      case (Some a)
      then have "FinalizeRequest t0 a None (Some EOF) = Return (fst res, snd res)"
        using Return DoneCase cl p by (simp add: notifyWorker_run_def Let_def)
      from FinalizeRequest_reachable [OF rt _ this] Some show ?thesis using ar by auto
    qed
  next
    case WorkerCase
    obtain ch q where w: "workerQueue s = ch # q"
      using Return WorkerCase
      by (cases "workerQueue s") (simp_all add: notifyWorker_run_def Let_def)
    obtain r t0 where p: "popIfNotEmpty (?s0\<lparr>workerQueue := q\<rparr>) = Return (r, t0)"
      using Return WorkerCase w
      by (cases "popIfNotEmpty (?s0\<lparr>workerQueue := q\<rparr>)") (auto simp: notifyWorker_run_def Let_def)
    have res: "snd res = t0\<lparr>wchans := (wchans t0)(ch := wchans t0 ch @ [r])\<rparr>"
      using Return WorkerCase w p
      by (cases "length (wchans t0 ch) \<ge> 1") (auto simp: notifyWorker_run_def Let_def)
    let ?s1 = "s\<lparr>notifying := notifying s - 1, workerQueue := q, matching := ch # matching s\<rparr>"
    have r1: "reachable ?s1 C" by (rule r_select_worker [OF assms(1) w assms(2)])
    have p1: "popIfNotEmpty ?s1 = Return (r, t0\<lparr>matching := ch # matching s\<rparr>)"
      using popIfNotEmpty_matching [where s = "?s0\<lparr>workerQueue := q\<rparr>" and m = "ch # matching s"] p
      by simp
    have m0: "matching t0 = matching s" using popIfNotEmpty_frame2 [OF p] by simp
    let ?t1 = "t0\<lparr>matching := ch # matching s\<rparr>"
    have "reachable (?t1\<lparr>matching := remove1 ch (matching ?t1),
                          wchans := (wchans ?t1)(ch := wchans ?t1 ch @ [r])\<rparr>) (C \<union> set_option r)"
      by (rule r_pop_match [OF r1 _ p1]) simp
    then have "reachable (t0\<lparr>matching := matching t0,
                          wchans := (wchans t0)(ch := wchans t0 ch @ [r])\<rparr>) (C \<union> set_option r)"
      by (simp add: m0)
    then have "reachable (snd res) (C \<union> set_option r)" by (simp add: res)
    then show ?thesis using ar by auto
  qed
qed

lemma reachable_sc_XY: "reachable sc_XY {}"
  unfolding sc_XY_def by (intro reachable_after_Request reachable_sc_X10)

lemma reachable_sc_handed: "\<exists>C. reachable sc_handed C"
proof -
  have "reachable sc_XY_shutdown {}"
    unfolding sc_XY_shutdown_def by (intro reachable_after_Shutdown reachable_sc_XY)
  moreover have "0 < notifying sc_XY_shutdown" by code_simp
  ultimately obtain C where "reachable sc_drained C"
    unfolding sc_drained_def using reachable_after_run by blast
  then have "reachable (after_WorkOnRequest sc_drained) C"
    by (rule reachable_after_WorkOnRequest)
  moreover have "0 < notifying (after_WorkOnRequest sc_drained)" by code_simp
  ultimately show ?thesis
    unfolding sc_handed_def using reachable_after_run by blast
qed

text \<open>
  C6, as stated, fails: with the retrievals for block pointers 5 (priority 10) and 6
  (priority 50) in the heap, two matching goroutines outstanding and \<open>doneCh\<close> closed,
  the goroutine that takes the case of the closed \<open>doneCh\<close> pops and finalizes the
  retrieval of priority 50; a worker then waits, and the other goroutine hands it the
  retrieval of priority 10. That retrieval was in the heap when shutdown was observed, no
  goroutine is left, and its request's channel holds no shutdown error.
\<close>

theorem drain_by_own_attempt_counterexample:
  "doneCh_closed sc_XY_shutdown \<and> heap sc_XY_shutdown = [1, 0]
   \<and> notifying sc_XY_shutdown = 2
   \<and> requests (mem sc_XY_shutdown 0) = [\<lparr>block = 3, doneCh = 0\<rparr>]
   \<and> (\<exists>s'. notifyWorker_run sc_XY_shutdown DoneCase = Return ([SendErr 1 (Some EOF)], s'))
   \<and> heap sc_drained = [0] \<and> chans sc_drained 0 = [] \<and> notifying sc_drained = 1
   \<and> (\<exists>s'. notifyWorker_run (after_WorkOnRequest sc_drained) WorkerCase
               = Return ([SendWork 0 (Some 0)], s'))
   \<and> heap sc_handed = [] \<and> notifying sc_handed = 0 \<and> draining sc_handed = 0
   \<and> matching sc_handed = [] \<and> doneCh_closed sc_handed
   \<and> wchans sc_handed 0 = [Some 0] \<and> chans sc_handed 0 = []
   \<and> (\<exists>C. reachable sc_handed C)"
proof -
  have a: "doneCh_closed sc_XY_shutdown" "heap sc_XY_shutdown = [1, 0]"
    "notifying sc_XY_shutdown = 2"
    "requests (mem sc_XY_shutdown 0) = [\<lparr>block = 3, doneCh = 0\<rparr>]"
    by code_simp+
  have b: "case notifyWorker_run sc_XY_shutdown DoneCase of
             Return r \<Rightarrow> fst r = [SendErr 1 (Some EOF)] | _ \<Rightarrow> False"
    by code_simp
  have b': "\<exists>s'. notifyWorker_run sc_XY_shutdown DoneCase = Return ([SendErr 1 (Some EOF)], s')"
    using b by (cases "notifyWorker_run sc_XY_shutdown DoneCase") auto
  have c: "heap sc_drained = [0]" "chans sc_drained 0 = []" "notifying sc_drained = 1"
    by code_simp+
  have d: "case notifyWorker_run (after_WorkOnRequest sc_drained) WorkerCase of
             Return r \<Rightarrow> fst r = [SendWork 0 (Some 0)] | _ \<Rightarrow> False"
    by code_simp
  have d': "\<exists>s'. notifyWorker_run (after_WorkOnRequest sc_drained) WorkerCase
               = Return ([SendWork 0 (Some 0)], s')"
    using d by (cases "notifyWorker_run (after_WorkOnRequest sc_drained) WorkerCase") auto
  have e: "heap sc_handed = []" "notifying sc_handed = 0" "draining sc_handed = 0"
    "matching sc_handed = []" "doneCh_closed sc_handed"
    "wchans sc_handed 0 = [Some 0]" "chans sc_handed 0 = []"
    by code_simp+
  show ?thesis
    using a b' c d' e reachable_sc_handed by simp
qed

section \<open>The order of service\<close>




end
